theory Spec2Isabelle
  imports Main "HOL-Library.AList" "HOL-Library.Multiset"
begin

section \<open>Python values and exceptions\<close>

text \<open>
  Everything the handlers of \<^verbatim>\<open>application.py\<close> touch is a value decoded from JSON: request
  bodies, calendar events, Notion blocks and API responses. A dict is an association list
  (insertion order, as in Python); its keys are strings. Numbers are integers: no code path
  of the application inspects a number beyond its truth value.
\<close>

datatype json =
    JNull
  | JBool bool
  | JNum int
  | JStr string
  | JArr "json list"
  | JObj "(string \<times> json) list"

text \<open>
  The exceptions the code can meet. \<open>Raised\<close> is any exception thrown by a client library
  (Google or Notion SDK, credential loading), carrying \<^verbatim>\<open>str(e)\<close>. The others are raised by the
  interpreter on the application's own expressions; \<open>TypeError\<close> carries its message.
\<close>

datatype py_error =
    AttributeError string string  \<comment> \<open>type name, attribute\<close>
  | KeyError string
  | TypeError string
  | Raised string

fun type_name :: "json \<Rightarrow> string" where
  "type_name JNull = ''NoneType''"
| "type_name (JBool _) = ''bool''"
| "type_name (JNum _) = ''int''"
| "type_name (JStr _) = ''str''"
| "type_name (JArr _) = ''list''"
| "type_name (JObj _) = ''dict''"

fun dec :: "nat \<Rightarrow> string" where
  "dec n = (if n < 10 then [char_of (48 + n)] else dec (n div 10) @ [char_of (48 + n mod 10)])"

definition apostrophe :: string where
  "apostrophe = [CHR 0x27]"

definition quoted :: "string \<Rightarrow> string" where
  "quoted s = apostrophe @ s @ apostrophe"

text \<open>\<^verbatim>\<open>str(e)\<close>\<close>

fun py_str :: "py_error \<Rightarrow> string" where
  "py_str (AttributeError ty a) = quoted ty @ '' object has no attribute '' @ quoted a"
| "py_str (KeyError k) = quoted k"
| "py_str (TypeError msg) = msg"
| "py_str (Raised msg) = msg"

definition not_iterable :: "json \<Rightarrow> py_error" where
  "not_iterable x = TypeError (quoted (type_name x) @ '' object is not iterable'')"

definition unhashable :: "json \<Rightarrow> py_error" where
  "unhashable x = TypeError (''unhashable type: '' @ quoted (type_name x))"

definition join_item :: "nat \<Rightarrow> json \<Rightarrow> py_error" where
  "join_item i x =
     TypeError (''sequence item '' @ dec i @ '': expected str instance, '' @ type_name x @ '' found'')"

definition no_item_assignment :: "json \<Rightarrow> py_error" where
  "no_item_assignment x =
     TypeError (quoted (type_name x) @ '' object does not support item assignment'')"

text \<open>Sequencing of computations that may raise: the first exception wins.\<close>

definition and_then :: "'e + 'a \<Rightarrow> ('a \<Rightarrow> 'e + 'b) \<Rightarrow> 'e + 'b" where
  "and_then r k = (case r of Inl e \<Rightarrow> Inl e | Inr v \<Rightarrow> k v)"

text \<open>Truth value of a Python object (\<^verbatim>\<open>if x\<close>, \<^verbatim>\<open>not x\<close>, \<^verbatim>\<open>all([...])\<close>).\<close>

fun truthy :: "json \<Rightarrow> bool" where
  "truthy JNull = False"
| "truthy (JBool b) = b"
| "truthy (JNum n) = (n \<noteq> 0)"
| "truthy (JStr s) = (s \<noteq> [])"
| "truthy (JArr xs) = (xs \<noteq> [])"
| "truthy (JObj kv) = (kv \<noteq> [])"

text \<open>\<^verbatim>\<open>d.get(k, default)\<close> on a dict.\<close>

definition dict_get :: "(string \<times> json) list \<Rightarrow> string \<Rightarrow> json \<Rightarrow> json" where
  "dict_get d k dflt = (case map_of d k of None \<Rightarrow> dflt | Some v \<Rightarrow> v)"

text \<open>\<^verbatim>\<open>x.get(k, default)\<close> on any object: only a dict has the method.\<close>

fun py_get :: "json \<Rightarrow> string \<Rightarrow> json \<Rightarrow> py_error + json" where
  "py_get (JObj d) k dflt = Inr (dict_get d k dflt)"
| "py_get x k dflt = Inl (AttributeError (type_name x) ''get'')"

text \<open>
  \<^verbatim>\<open>x.get(key, default)\<close> where the key is itself a value: a list or dict key is unhashable;
  \<^verbatim>\<open>None\<close>, a bool or a number is hashable but equals no key of a JSON object.
\<close>

fun py_get_key :: "json \<Rightarrow> json \<Rightarrow> json \<Rightarrow> py_error + json" where
  "py_get_key (JObj d) (JStr k) dflt = Inr (dict_get d k dflt)"
| "py_get_key (JObj d) (JArr xs) dflt = Inl (unhashable (JArr xs))"
| "py_get_key (JObj d) (JObj kv) dflt = Inl (unhashable (JObj kv))"
| "py_get_key (JObj d) _ dflt = Inr dflt"
| "py_get_key x _ dflt = Inl (AttributeError (type_name x) ''get'')"

text \<open>
  \<^verbatim>\<open>x[k] = v\<close> with a string key: a dict keeps the position of a key it already has and
  appends a new one; nothing else in a JSON value accepts a string subscript.
\<close>

fun py_setitem :: "json \<Rightarrow> string \<Rightarrow> json \<Rightarrow> py_error + json" where
  "py_setitem (JObj d) k v = Inr (JObj (AList.update k v d))"
| "py_setitem (JArr xs) k v = Inl (TypeError ''list indices must be integers or slices, not str'')"
| "py_setitem x k v = Inl (no_item_assignment x)"

text \<open>
  Iteration (\<^verbatim>\<open>for x in v\<close>, \<^verbatim>\<open>list.extend(v)\<close>, a comprehension): a list gives its items, a
  dict its keys, a string its one-character strings; anything else is not iterable.
\<close>

fun py_iter :: "json \<Rightarrow> py_error + json list" where
  "py_iter (JArr xs) = Inr xs"
| "py_iter (JObj d) = Inr (map (\<lambda>p. JStr (fst p)) d)"
| "py_iter (JStr s) = Inr (map (\<lambda>c. JStr [c]) s)"
| "py_iter x = Inl (not_iterable x)"

text \<open>\<^verbatim>\<open>"".join(pieces)\<close>: every piece must be a string.\<close>

fun join_from :: "nat \<Rightarrow> json list \<Rightarrow> py_error + string" where
  "join_from i [] = Inr []"
| "join_from i (JStr s # ps) = and_then (join_from (Suc i) ps) (\<lambda>rest. Inr (s @ rest))"
| "join_from i (p # ps) = Inl (join_item i p)"

definition py_join :: "json list \<Rightarrow> py_error + string" where
  "py_join pieces = join_from 0 pieces"

text \<open>\<^verbatim>\<open>x in [s1, ..., sn]\<close> for a list of string literals.\<close>

fun is_in :: "json \<Rightarrow> string list \<Rightarrow> bool" where
  "is_in (JStr s) names = (s \<in> set names)"
| "is_in _ names = False"

section \<open>Text Extractor: \<^verbatim>\<open>extract_text_from_blocks\<close>\<close>

definition text_types :: "string list" where
  "text_types = [''paragraph'', ''heading_1'', ''heading_2'', ''heading_3'',
                 ''bulleted_list_item'', ''numbered_list_item'', ''to_do'']"

definition heading_types :: "string list" where
  "heading_types = [''heading_1'', ''heading_2'', ''heading_3'']"

text \<open>\<^verbatim>\<open>[element.get("plain_text", "") for element in text_elements]\<close>\<close>

fun plain_texts :: "json list \<Rightarrow> py_error + json list" where
  "plain_texts [] = Inr []"
| "plain_texts (element # rest) =
     and_then (py_get element ''plain_text'' (JStr ''''))
       (\<lambda>piece. and_then (plain_texts rest) (\<lambda>pieces. Inr (piece # pieces)))"

text \<open>The body of the \<^verbatim>\<open>for block in blocks\<close> loop: \<open>text_content\<close> in, \<open>text_content\<close> out.\<close>

definition extract_block :: "json \<Rightarrow> json list \<Rightarrow> py_error + json list" where
  "extract_block block text_content =
     and_then (py_get block ''type'' JNull) (\<lambda>block_type.
     and_then (py_get_key block block_type (JObj [])) (\<lambda>block_data.
       if is_in block_type text_types then
         and_then (py_get block_data ''rich_text'' (JArr [])) (\<lambda>text_elements.
         and_then (py_iter text_elements) (\<lambda>elements.
         and_then (plain_texts elements) (\<lambda>text_pieces.
           if is_in block_type heading_types then
             and_then (py_join text_pieces) (\<lambda>joined.
               Inr (text_content @ [JStr (''**'' @ joined @ ''**'')]))
           else
             and_then (py_join text_pieces) (\<lambda>joined.
               Inr (text_content @ [JStr joined])))))
       else if block_type = JStr ''child_page'' then
         and_then (py_get block_data ''title'' (JStr '''')) (\<lambda>page_title.
           Inr (text_content @ [page_title]))
       else Inr text_content))"

fun extract_loop :: "json list \<Rightarrow> json list \<Rightarrow> py_error + json list" where
  "extract_loop [] text_content = Inr text_content"
| "extract_loop (block # rest) text_content =
     and_then (extract_block block text_content) (extract_loop rest)"

definition extract_text_from_blocks :: "json \<Rightarrow> py_error + json list" where
  "extract_text_from_blocks blocks = and_then (py_iter blocks) (\<lambda>bs. extract_loop bs [])"

subsection \<open>The specification's reading of a block\<close>

text \<open>
  What the specification's data model says a content block is: a text-bearing block with a
  type tag and the plain texts of its rich-text spans, a nested-page reference with a title
  (empty when absent), or a block of some other type. \<open>describes\<close> relates a block record to
  that reading; \<open>contribution\<close> is the extractor's rule in the specification's words.
\<close>

datatype block_view = TextBlock string "string list" | ChildPage string | OtherBlock

fun span_has_text :: "json \<Rightarrow> string \<Rightarrow> bool" where
  "span_has_text (JObj kv) s =
     (case map_of kv ''plain_text'' of Some (JStr t) \<Rightarrow> t = s | _ \<Rightarrow> False)"
| "span_has_text _ s = False"

fun describes :: "json \<Rightarrow> block_view \<Rightarrow> bool" where
  "describes (JObj kv) (TextBlock ty texts) =
     (ty \<in> set text_types \<and> map_of kv ''type'' = Some (JStr ty) \<and>
      (case dict_get kv ty (JObj []) of
         JObj data \<Rightarrow>
           (case dict_get data ''rich_text'' (JArr []) of
              JArr spans \<Rightarrow> list_all2 span_has_text spans texts
            | _ \<Rightarrow> False)
       | _ \<Rightarrow> False))"
| "describes (JObj kv) (ChildPage title) =
     (map_of kv ''type'' = Some (JStr ''child_page'') \<and>
      (case dict_get kv ''child_page'' (JObj []) of
         JObj data \<Rightarrow> dict_get data ''title'' (JStr '''') = JStr title
       | _ \<Rightarrow> False))"
| "describes (JObj kv) OtherBlock =
     (case map_of kv ''type'' of
        Some (JStr ty) \<Rightarrow> ty \<notin> set text_types \<and> ty \<noteq> ''child_page''
      | _ \<Rightarrow> False)"
| "describes _ _ = False"

fun contribution :: "block_view \<Rightarrow> string list" where
  "contribution (TextBlock ty texts) =
     (if ty \<in> set heading_types then [''**'' @ concat texts @ ''**''] else [concat texts])"
| "contribution (ChildPage title) = [title]"
| "contribution OtherBlock = []"

definition example_blocks :: "json list" where
  "example_blocks =
     [JObj [(''id'', JStr ''b1''), (''type'', JStr ''heading_1''),
            (''heading_1'', JObj [(''rich_text'',
               JArr [JObj [(''plain_text'', JStr ''Hello'')],
                     JObj [(''plain_text'', JStr '' World'')]])])],
      JObj [(''id'', JStr ''b2''), (''type'', JStr ''paragraph''),
            (''paragraph'', JObj [(''rich_text'',
               JArr [JObj [(''plain_text'', JStr ''a'')], JObj [(''plain_text'', JStr ''b'')]])])],
      JObj [(''id'', JStr ''b3''), (''type'', JStr ''divider''), (''divider'', JObj [])],
      JObj [(''id'', JStr ''b4''), (''type'', JStr ''child_page''),
            (''child_page'', JObj [(''title'', JStr ''Notes'')])],
      JObj [(''id'', JStr ''b5''), (''type'', JStr ''child_page''), (''child_page'', JObj [])],
      JObj [(''id'', JStr ''b6''), (''type'', JStr ''paragraph''),
            (''paragraph'', JObj [(''rich_text'',
               JArr [JObj [(''plain_text'', JStr ''a'')], JObj [(''plain_text'', JStr ''b'')]])])]]"

definition example_views :: "block_view list" where
  "example_views =
     [TextBlock ''heading_1'' [''Hello'', '' World''], TextBlock ''paragraph'' [''a'', ''b''],
      OtherBlock, ChildPage ''Notes'', ChildPage '''', TextBlock ''paragraph'' [''a'', ''b'']]"

section \<open>Upstream services, HTTP responses, loops\<close>

text \<open>
  A call into a client library: the operation and its keyword arguments. The two providers
  are external state machines: a call gives an exception or a decoded response, and the next
  state of the provider. Building the request object and executing it are one step (both sit
  inside the same \<^verbatim>\<open>try\<close> in every handler). A handler returns its HTTP response, the calls it
  issued with their outcomes in order, and the provider's state.
\<close>

datatype api_call = Call string "(string \<times> json) list"

type_synonym 's upstream = "'s \<Rightarrow> api_call \<Rightarrow> (py_error + json) \<times> 's"

type_synonym trace = "(api_call \<times> (py_error + json)) list"

text \<open>
  \<open>Jsonify\<close> is \<^verbatim>\<open>return jsonify(body), status\<close>, \<open>Abort\<close> is \<^verbatim>\<open>abort(status, description=...)\<close>,
  \<open>Unhandled\<close> is an exception that leaves the handler, which the framework answers with a 500.
\<close>

datatype response = Jsonify nat json | Abort nat string | Unhandled py_error

fun status :: "response \<Rightarrow> nat" where
  "status (Jsonify code body) = code"
| "status (Abort code description) = code"
| "status (Unhandled e) = 500"

text \<open>\<^verbatim>\<open>request.args.get(k, default)\<close>: query-string values are strings.\<close>

definition args_get :: "(string \<times> string) list \<Rightarrow> string \<Rightarrow> json \<Rightarrow> json" where
  "args_get args k dflt = (case map_of args k of None \<Rightarrow> dflt | Some v \<Rightarrow> JStr v)"

text \<open>
  A \<^verbatim>\<open>while\<close> loop: \<open>body\<close> runs one iteration on the loop's variables and either leaves the
  loop with a result (\<open>Inl\<close>: \<^verbatim>\<open>break\<close>, \<^verbatim>\<open>return\<close>, an exception, a false loop condition) or
  gives the variables for the next iteration. A loop that never leaves has the value \<open>None\<close>.
\<close>

partial_function (option) iterate :: "('st \<Rightarrow> 'r + 'st) \<Rightarrow> 'st \<Rightarrow> 'r option" where
  "iterate body st = (case body st of Inl r \<Rightarrow> Some r | Inr st1 \<Rightarrow> iterate body st1)"

declare iterate.simps [code]

text \<open>The first \<open>n\<close> iterations: the variables after them, if the loop is still running.\<close>

fun after_iterations :: "nat \<Rightarrow> ('st \<Rightarrow> 'r + 'st) \<Rightarrow> 'st \<Rightarrow> 'st option" where
  "after_iterations 0 body st = Some st"
| "after_iterations (Suc n) body st =
     (case body st of Inl r \<Rightarrow> None | Inr st1 \<Rightarrow> after_iterations n body st1)"

section \<open>Calendar handlers\<close>

text \<open>
  \<^verbatim>\<open>get_calendar_service()\<close> loads, refreshes or requests credentials and builds the client. It
  is taken by its outcome \<open>svc\<close>: the exception it raised, or the calendar service. Every
  calendar handler calls it first, outside any \<^verbatim>\<open>try\<close>.
\<close>

subsection \<open>\<^verbatim>\<open>read_events\<close>\<close>

definition events_list :: "json \<Rightarrow> json \<Rightarrow> json \<Rightarrow> json \<Rightarrow> api_call" where
  "events_list calendar_id time_min time_max page_token =
     Call ''events.list''
       [(''calendarId'', calendar_id), (''timeMin'', time_min), (''timeMax'', time_max),
        (''singleEvents'', JBool True), (''orderBy'', JStr ''startTime''),
        (''pageToken'', page_token), (''maxResults'', JNum 2500)]"

text \<open>
  What one iteration does with a fetched \<open>events_result\<close>: \<^verbatim>\<open>events.extend(...)\<close> and the new
  \<open>page_token\<close>.
\<close>

definition read_events_page :: "json \<Rightarrow> json list \<Rightarrow> py_error + (json list \<times> json)" where
  "read_events_page events_result events =
     and_then (py_get events_result ''items'' (JArr [])) (\<lambda>items.
     and_then (py_iter items) (\<lambda>new_events.
     and_then (py_get events_result ''nextPageToken'' JNull) (\<lambda>page_token.
       Inr (events @ new_events, page_token))))"

text \<open>Loop variables: provider state, \<open>events\<close>, \<open>page_token\<close>, calls so far.\<close>

definition read_events_body ::
  "'s upstream \<Rightarrow> json \<Rightarrow> json \<Rightarrow> json \<Rightarrow> 's \<times> json list \<times> json \<times> trace \<Rightarrow>
   (response \<times> trace \<times> 's) + ('s \<times> json list \<times> json \<times> trace)" where
  "read_events_body service calendar_id time_min time_max st =
     (case st of (s, events, page_token, tr) \<Rightarrow>
        let c = events_list calendar_id time_min time_max page_token;
            (r, s1) = service s c;
            tr1 = tr @ [(c, r)]
        in (case and_then r (\<lambda>events_result. read_events_page events_result events) of
              Inl e \<Rightarrow> Inl (Abort 500 (py_str e), tr1, s1)
            | Inr (events1, page_token1) \<Rightarrow>
                if \<not> truthy page_token1 then Inl (Jsonify 200 (JArr events1), tr1, s1)
                else Inr (s1, events1, page_token1, tr1)))"

definition read_events ::
  "py_error + 's upstream \<Rightarrow> 's \<Rightarrow> (string \<times> string) list \<Rightarrow> string \<Rightarrow>
   (response \<times> trace \<times> 's) option" where
  "read_events svc s args utcnow =
     (case svc of
        Inl e \<Rightarrow> Some (Unhandled e, [], s)
      | Inr service \<Rightarrow>
          let calendar_id = args_get args ''calendar_id'' (JStr ''primary'');
              time_min = args_get args ''time_min'' (JStr (utcnow @ ''Z''));
              time_max = args_get args ''time_max'' JNull
          in iterate (read_events_body service calendar_id time_min time_max) (s, [], JNull, []))"

subsection \<open>\<^verbatim>\<open>create_event\<close>\<close>

definition create_event ::
  "py_error + 's upstream \<Rightarrow> 's \<Rightarrow> json \<Rightarrow> response \<times> trace \<times> 's" where
  "create_event svc s data =
     (case svc of
        Inl e \<Rightarrow> (Unhandled e, [], s)
      | Inr service \<Rightarrow>
     (case py_get data ''calendar_id'' (JStr ''primary'') of
        Inl e \<Rightarrow> (Unhandled e, [], s)
      | Inr calendar_id \<Rightarrow>
     (case py_get data ''summary'' JNull of
        Inl e \<Rightarrow> (Unhandled e, [], s)
      | Inr summary \<Rightarrow>
     (case py_get data ''description'' JNull of
        Inl e \<Rightarrow> (Unhandled e, [], s)
      | Inr description \<Rightarrow>
     (case py_get data ''start_time'' JNull of
        Inl e \<Rightarrow> (Unhandled e, [], s)
      | Inr start_time \<Rightarrow>
     (case py_get data ''end_time'' JNull of
        Inl e \<Rightarrow> (Unhandled e, [], s)
      | Inr end_time \<Rightarrow>
     (case py_get data ''attendees'' (JArr []) of
        Inl e \<Rightarrow> (Unhandled e, [], s)
      | Inr attendees \<Rightarrow>
          if \<not> (truthy summary \<and> truthy start_time \<and> truthy end_time)
          then (Abort 400 ''Missing required event fields.'', [], s)
          else
            (case py_iter attendees of
               Inl e \<Rightarrow> (Unhandled e, [], s)
             | Inr emails \<Rightarrow>
                 let event = JObj
                       [(''summary'', summary), (''description'', description),
                        (''start'', JObj [(''dateTime'', start_time)]),
                        (''end'', JObj [(''dateTime'', end_time)]),
                        (''attendees'', JArr (map (\<lambda>attendee. JObj [(''email'', attendee)]) emails))];
                     c = Call ''events.insert'' [(''calendarId'', calendar_id), (''body'', event)];
                     (r, s1) = service s c
                 in (case r of
                       Inl e \<Rightarrow> (Abort 500 (py_str e), [(c, r)], s1)
                     | Inr created_event \<Rightarrow> (Jsonify 200 created_event, [(c, r)], s1))))))))))"

subsection \<open>\<^verbatim>\<open>edit_event\<close>\<close>

text \<open>Lines 124 to 139: the request's fields written over the fetched event.\<close>

definition overwrite_fields :: "json \<Rightarrow> json \<Rightarrow> py_error + json" where
  "overwrite_fields data event0 =
     and_then (py_get data ''summary'' JNull) (\<lambda>summary.
     and_then (py_get data ''description'' JNull) (\<lambda>description.
     and_then (py_get data ''start_time'' JNull) (\<lambda>start_time.
     and_then (py_get data ''end_time'' JNull) (\<lambda>end_time.
     and_then (py_get data ''attendees'' JNull) (\<lambda>attendees.
     and_then (if summary \<noteq> JNull then py_setitem event0 ''summary'' summary else Inr event0)
       (\<lambda>event1.
     and_then (if description \<noteq> JNull then py_setitem event1 ''description'' description
               else Inr event1)
       (\<lambda>event2.
     and_then (if start_time \<noteq> JNull
               then py_setitem event2 ''start'' (JObj [(''dateTime'', start_time)])
               else Inr event2)
       (\<lambda>event3.
     and_then (if end_time \<noteq> JNull
               then py_setitem event3 ''end'' (JObj [(''dateTime'', end_time)])
               else Inr event3)
       (\<lambda>event4.
       if attendees \<noteq> JNull
       then and_then (py_iter attendees) (\<lambda>emails.
              py_setitem event4 ''attendees''
                (JArr (map (\<lambda>attendee. JObj [(''email'', attendee)]) emails)))
       else Inr event4)))))))))"

definition edit_event ::
  "py_error + 's upstream \<Rightarrow> 's \<Rightarrow> json \<Rightarrow> response \<times> trace \<times> 's" where
  "edit_event svc s data =
     (case svc of
        Inl e \<Rightarrow> (Unhandled e, [], s)
      | Inr service \<Rightarrow>
     (case py_get data ''calendar_id'' (JStr ''primary'') of
        Inl e \<Rightarrow> (Unhandled e, [], s)
      | Inr calendar_id \<Rightarrow>
     (case py_get data ''event_id'' JNull of
        Inl e \<Rightarrow> (Unhandled e, [], s)
      | Inr event_id \<Rightarrow>
          if \<not> truthy event_id then (Abort 400 ''Event ID is required.'', [], s)
          else
            let c1 = Call ''events.get'' [(''calendarId'', calendar_id), (''eventId'', event_id)];
                (r1, s1) = service s c1
            in (case r1 of
                  Inl e \<Rightarrow> (Abort 500 (''Error retrieving event: '' @ py_str e), [(c1, r1)], s1)
                | Inr event \<Rightarrow>
                    (case overwrite_fields data event of
                       Inl e \<Rightarrow> (Unhandled e, [(c1, r1)], s1)
                     | Inr body \<Rightarrow>
                         let c2 = Call ''events.update''
                                    [(''calendarId'', calendar_id), (''eventId'', event_id),
                                     (''body'', body)];
                             (r2, s2) = service s1 c2
                         in (case r2 of
                               Inl e \<Rightarrow>
                                 (Abort 500 (''Error updating event: '' @ py_str e),
                                  [(c1, r1), (c2, r2)], s2)
                             | Inr updated_event \<Rightarrow>
                                 (Jsonify 200 updated_event, [(c1, r1), (c2, r2)], s2)))))))"

subsection \<open>\<^verbatim>\<open>delete_event\<close>\<close>

definition delete_event ::
  "py_error + 's upstream \<Rightarrow> 's \<Rightarrow> (string \<times> string) list \<Rightarrow> response \<times> trace \<times> 's" where
  "delete_event svc s args =
     (case svc of
        Inl e \<Rightarrow> (Unhandled e, [], s)
      | Inr service \<Rightarrow>
          let calendar_id = args_get args ''calendar_id'' (JStr ''primary'');
              event_id = args_get args ''event_id'' JNull
          in if \<not> truthy event_id then (Abort 400 ''Event ID is required.'', [], s)
             else
               let c = Call ''events.delete'' [(''calendarId'', calendar_id), (''eventId'', event_id)];
                   (r, s1) = service s c
               in (case r of
                     Inl e \<Rightarrow> (Abort 500 (py_str e), [(c, r)], s1)
                   | Inr _ \<Rightarrow>
                       (Jsonify 200
                          (JObj [(''status'', JStr ''success''),
                                 (''message'', JStr ''Event deleted successfully'')]),
                        [(c, r)], s1)))"

section \<open>Notion: \<^verbatim>\<open>query_notion_database\<close>\<close>

definition databases_query :: "json \<Rightarrow> json \<Rightarrow> json \<Rightarrow> json \<Rightarrow> json \<Rightarrow> api_call" where
  "databases_query database_id filter_arg sorts start_cursor page_size =
     Call ''databases.query''
       [(''database_id'', database_id), (''filter'', filter_arg), (''sorts'', sorts),
        (''start_cursor'', start_cursor), (''page_size'', page_size)]"

definition query_page :: "json \<Rightarrow> json list \<Rightarrow> py_error + (json list \<times> json \<times> json)" where
  "query_page response results =
     and_then (py_get response ''results'' (JArr [])) (\<lambda>page.
     and_then (py_iter page) (\<lambda>new_results.
     and_then (py_get response ''has_more'' JNull) (\<lambda>has_more.
     and_then (py_get response ''next_cursor'' JNull) (\<lambda>start_cursor.
       Inr (results @ new_results, has_more, start_cursor)))))"

text \<open>Loop variables: provider state, \<open>results\<close>, \<open>start_cursor\<close>, calls so far.\<close>

definition query_body ::
  "'s upstream \<Rightarrow> json \<Rightarrow> json \<Rightarrow> json \<Rightarrow> json \<Rightarrow> 's \<times> json list \<times> json \<times> trace \<Rightarrow>
   (response \<times> trace \<times> 's) + ('s \<times> json list \<times> json \<times> trace)" where
  "query_body notion database_id filter_arg sorts page_size st =
     (case st of (s, results, start_cursor, tr) \<Rightarrow>
        let c = databases_query database_id filter_arg sorts start_cursor page_size;
            (r, s1) = notion s c;
            tr1 = tr @ [(c, r)]
        in (case and_then r (\<lambda>response. query_page response results) of
              Inl e \<Rightarrow> Inl (Jsonify 500 (JObj [(''error'', JStr (py_str e))]), tr1, s1)
            | Inr (results1, has_more, start_cursor1) \<Rightarrow>
                if \<not> truthy has_more then Inl (Jsonify 200 (JArr results1), tr1, s1)
                else Inr (s1, results1, start_cursor1, tr1)))"

definition query_notion_database ::
  "'s upstream \<Rightarrow> 's \<Rightarrow> json \<Rightarrow> (response \<times> trace \<times> 's) option" where
  "query_notion_database notion s data =
     (case py_get data ''database_id'' JNull of
        Inl e \<Rightarrow> Some (Unhandled e, [], s)
      | Inr database_id \<Rightarrow>
     (case py_get data ''filter'' JNull of
        Inl e \<Rightarrow> Some (Unhandled e, [], s)
      | Inr filter_arg \<Rightarrow>
     (case py_get data ''sorts'' JNull of
        Inl e \<Rightarrow> Some (Unhandled e, [], s)
      | Inr sorts \<Rightarrow>
     (case py_get data ''page_size'' (JNum 100) of
        Inl e \<Rightarrow> Some (Unhandled e, [], s)
      | Inr page_size \<Rightarrow>
          if \<not> truthy database_id
          then Some (Jsonify 400 (JObj [(''error'', JStr ''Database ID is required'')]), [], s)
          else iterate (query_body notion database_id filter_arg sorts page_size)
                 (s, [], JNull, [])))))"

section \<open>Notion: the Block Tree Flattener \<^verbatim>\<open>retrieve_all_blocks\<close>\<close>

text \<open>The only keyword argument of the children listing is the block identifier.\<close>

definition children_list :: "json \<Rightarrow> api_call" where
  "children_list block_id = Call ''blocks.children.list'' [(''block_id'', block_id)]"

text \<open>The \<^verbatim>\<open>for block in block_children\<close> loop on \<open>collected_blocks\<close> and \<open>blocks_to_process\<close>.\<close>

fun scan_children :: "json list \<Rightarrow> json list \<Rightarrow> json list \<Rightarrow> py_error + (json list \<times> json list)" where
  "scan_children [] collected_blocks blocks_to_process = Inr (collected_blocks, blocks_to_process)"
| "scan_children (block # rest) collected_blocks blocks_to_process =
     and_then (py_get block ''has_children'' (JBool False)) (\<lambda>has_children.
       if truthy has_children then
         (case block of
            JObj d \<Rightarrow>
              (case map_of d ''id'' of
                 None \<Rightarrow> Inl (KeyError ''id'')
               | Some block_id \<Rightarrow>
                   scan_children rest (collected_blocks @ [block]) (blocks_to_process @ [block_id]))
          | _ \<Rightarrow> Inl (AttributeError (type_name block) ''get''))
       else scan_children rest (collected_blocks @ [block]) blocks_to_process)"

definition expand_response :: "json \<Rightarrow> json list \<Rightarrow> json list \<Rightarrow> py_error + (json list \<times> json list)" where
  "expand_response response collected_blocks blocks_to_process =
     and_then (py_get response ''results'' (JArr [])) (\<lambda>results.
     and_then (py_iter results) (\<lambda>block_children.
       scan_children block_children collected_blocks blocks_to_process))"

text \<open>
  Loop variables: provider state, \<open>collected_blocks\<close>, \<open>blocks_to_process\<close> (the last element is
  the top of the stack), calls so far. The whole loop is inside \<^verbatim>\<open>try\<close>, and the handler of
  \<^verbatim>\<open>except Exception\<close> returns \<^verbatim>\<open>str(e)\<close>.
\<close>

definition retrieve_body ::
  "'s upstream \<Rightarrow> 's \<times> json list \<times> json list \<times> trace \<Rightarrow>
   (json \<times> trace \<times> 's) + ('s \<times> json list \<times> json list \<times> trace)" where
  "retrieve_body notion st =
     (case st of (s, collected_blocks, blocks_to_process, tr) \<Rightarrow>
        if blocks_to_process = [] then Inl (JArr collected_blocks, tr, s)
        else
          let current_block_id = last blocks_to_process;
              popped = butlast blocks_to_process;
              c = children_list current_block_id;
              (r, s1) = notion s c;
              tr1 = tr @ [(c, r)]
          in (case and_then r (\<lambda>response. expand_response response collected_blocks popped) of
                Inl e \<Rightarrow> Inl (JStr (py_str e), tr1, s1)
              | Inr (collected1, to_process1) \<Rightarrow> Inr (s1, collected1, to_process1, tr1)))"

definition retrieve_all_blocks :: "'s upstream \<Rightarrow> 's \<Rightarrow> json \<Rightarrow> (json \<times> trace \<times> 's) option" where
  "retrieve_all_blocks notion s block_id = iterate (retrieve_body notion) (s, [], [block_id], [])"

subsection \<open>Reading the calendar handlers' effect\<close>

text \<open>
  A field of an event record, and what a request asks an event field to become: the
  request's \<open>summary\<close>, \<open>description\<close>, \<open>start_time\<close>, \<open>end_time\<close> and \<open>attendees\<close>, each only
  when present and not null.
\<close>

fun field :: "json \<Rightarrow> string \<Rightarrow> json option" where
  "field (JObj d) k = map_of d k"
| "field _ k = None"

definition known_fields :: "string list" where
  "known_fields = [''summary'', ''description'', ''start'', ''end'', ''attendees'']"

definition present :: "(string \<times> json) list \<Rightarrow> string \<Rightarrow> json option" where
  "present d k = (case dict_get d k JNull of JNull \<Rightarrow> None | v \<Rightarrow> Some v)"

definition requested :: "(string \<times> json) list \<Rightarrow> string \<Rightarrow> json option" where
  "requested d k =
     (if k = ''summary'' then present d ''summary''
      else if k = ''description'' then present d ''description''
      else if k = ''start'' then map_option (\<lambda>t. JObj [(''dateTime'', t)]) (present d ''start_time'')
      else if k = ''end'' then map_option (\<lambda>t. JObj [(''dateTime'', t)]) (present d ''end_time'')
      else if k = ''attendees'' then
        (case present d ''attendees'' of
           None \<Rightarrow> None
         | Some attendees \<Rightarrow>
             (case py_iter attendees of
                Inl e \<Rightarrow> None
              | Inr emails \<Rightarrow> Some (JArr (map (\<lambda>attendee. JObj [(''email'', attendee)]) emails))))
      else None)"

text \<open>A calendar that holds one event and answers an update with the body it was sent.\<close>

definition example_event :: json where
  "example_event =
     JObj [(''id'', JStr ''e1''), (''summary'', JStr ''Standup''), (''location'', JStr ''Room 1''),
           (''start'', JObj [(''dateTime'', JStr ''2024-05-01T09:00:00Z''),
                             (''timeZone'', JStr ''UTC'')]),
           (''end'', JObj [(''dateTime'', JStr ''2024-05-01T09:15:00Z'')])]"

definition calendar_stub :: "unit upstream" where
  "calendar_stub s c =
     (case c of Call operation kw \<Rightarrow>
        if operation = ''events.get'' then (Inr example_event, s)
        else if operation = ''events.update'' then (Inr (dict_get kw ''body'' JNull), s)
        else (Inr JNull, s))"

definition example_edit :: "(string \<times> json) list" where
  "example_edit =
     [(''event_id'', JStr ''e1''), (''summary'', JStr ''Daily''), (''description'', JNull),
      (''start_time'', JStr ''2024-05-01T10:00:00Z'')]"

definition example_edited :: json where
  "example_edited =
     JObj [(''id'', JStr ''e1''), (''summary'', JStr ''Daily''), (''location'', JStr ''Room 1''),
           (''start'', JObj [(''dateTime'', JStr ''2024-05-01T10:00:00Z'')]),
           (''end'', JObj [(''dateTime'', JStr ''2024-05-01T09:15:00Z'')])]"

definition example_update_args :: "(string \<times> json) list" where
  "example_update_args =
     [(''calendarId'', JStr ''primary''), (''eventId'', JStr ''e1''), (''body'', example_edited)]"

definition example_create :: "(string \<times> json) list" where
  "example_create = [(''summary'', JStr ''Standup'')]"

section \<open>Reading the providers' pagination conventions\<close>

text \<open>
  The calendar convention: a response is a dict with the page's \<open>items\<close> and, when more pages
  exist, a non-empty \<open>nextPageToken\<close>; the token is absent on the last page.
\<close>

fun calendar_page :: "json \<Rightarrow> json list \<Rightarrow> string option \<Rightarrow> bool" where
  "calendar_page (JObj d) items cursor =
     (dict_get d ''items'' (JArr []) = JArr items \<and>
      map_of d ''nextPageToken'' = map_option JStr cursor \<and> cursor \<noteq> Some [])"
| "calendar_page _ items cursor = False"

text \<open>
  The query convention: a response is a dict with the page's \<open>results\<close>, the boolean
  \<open>has_more\<close> and the cursor \<open>next_cursor\<close> of the next page.
\<close>

fun notion_page :: "json \<Rightarrow> json list \<Rightarrow> bool \<Rightarrow> json \<Rightarrow> bool" where
  "notion_page (JObj d) results more cursor =
     (dict_get d ''results'' (JArr []) = JArr results \<and>
      map_of d ''has_more'' = Some (JBool more) \<and> dict_get d ''next_cursor'' JNull = cursor)"
| "notion_page _ results more cursor = False"

text \<open>
  A provider that, asked from state \<open>s\<close> with the cursor \<open>tok\<close> and then with the cursors it hands
  out, returns the given pages in order, the last one signalling completion and no other.
  \<open>request\<close> builds the call for a cursor.
\<close>

fun calendar_run ::
  "'s upstream \<Rightarrow> (json \<Rightarrow> api_call) \<Rightarrow> 's \<Rightarrow> json \<Rightarrow> (json list \<times> string option) list \<Rightarrow> bool" where
  "calendar_run service request s tok [] = False"
| "calendar_run service request s tok ((items, cursor) # more) =
     (case service s (request tok) of
        (Inl e, s1) \<Rightarrow> False
      | (Inr response, s1) \<Rightarrow>
          calendar_page response items cursor \<and>
          (case cursor of
             None \<Rightarrow> more = []
           | Some t \<Rightarrow> calendar_run service request s1 (JStr t) more))"

fun notion_run ::
  "'s upstream \<Rightarrow> (json \<Rightarrow> api_call) \<Rightarrow> 's \<Rightarrow> json \<Rightarrow> (json list \<times> bool \<times> json) list \<Rightarrow> bool" where
  "notion_run notion request s cur [] = False"
| "notion_run notion request s cur ((results, has_more, next_cursor) # more) =
     (case notion s (request cur) of
        (Inl e, s1) \<Rightarrow> False
      | (Inr response, s1) \<Rightarrow>
          notion_page response results has_more next_cursor \<and>
          (if has_more then notion_run notion request s1 next_cursor more else more = []))"

text \<open>The call each handler issues for a cursor, from its request.\<close>

definition read_events_request :: "(string \<times> string) list \<Rightarrow> string \<Rightarrow> json \<Rightarrow> api_call" where
  "read_events_request args utcnow page_token =
     events_list (args_get args ''calendar_id'' (JStr ''primary''))
       (args_get args ''time_min'' (JStr (utcnow @ ''Z'')))
       (args_get args ''time_max'' JNull) page_token"

definition query_request :: "(string \<times> json) list \<Rightarrow> json \<Rightarrow> api_call" where
  "query_request d start_cursor =
     databases_query (dict_get d ''database_id'' JNull) (dict_get d ''filter'' JNull)
       (dict_get d ''sorts'' JNull) start_cursor (dict_get d ''page_size'' (JNum 100))"

text \<open>The cursors a sequence of pages hands out, and the calls that follow them.\<close>

fun calendar_cursors :: "(json list \<times> string option) list \<Rightarrow> json list" where
  "calendar_cursors [] = []"
| "calendar_cursors ((items, None) # more) = calendar_cursors more"
| "calendar_cursors ((items, Some t) # more) = JStr t # calendar_cursors more"

fun notion_cursors :: "(json list \<times> bool \<times> json) list \<Rightarrow> json list" where
  "notion_cursors [] = []"
| "notion_cursors ((results, has_more, next_cursor) # more) =
     (if has_more then next_cursor # notion_cursors more else notion_cursors more)"

text \<open>
  A stub provider that serves a fixed list of responses, one per call whatever the call, and
  fails once they are used up; its state is the number of calls answered. A stub provider
  that answers every call with the same response.
\<close>

definition paged_stub :: "json list \<Rightarrow> nat upstream" where
  "paged_stub responses n c =
     (if n < length responses then (Inr (responses ! n), Suc n)
      else (Inl (Raised ''no more pages''), Suc n))"

definition constant_stub :: "json \<Rightarrow> unit upstream" where
  "constant_stub response s c = (Inr response, s)"

definition example_calendar_responses :: "json list" where
  "example_calendar_responses =
     [JObj [(''kind'', JStr ''calendar#events''),
            (''items'', JArr [JObj [(''id'', JStr ''e1'')], JObj [(''id'', JStr ''e2'')]]),
            (''nextPageToken'', JStr ''p2'')],
      JObj [(''kind'', JStr ''calendar#events''),
            (''items'', JArr [JObj [(''id'', JStr ''e3'')]])]]"

definition example_calendar_pages :: "(json list \<times> string option) list" where
  "example_calendar_pages =
     [([JObj [(''id'', JStr ''e1'')], JObj [(''id'', JStr ''e2'')]], Some ''p2''),
      ([JObj [(''id'', JStr ''e3'')]], None)]"

definition example_query_responses :: "json list" where
  "example_query_responses =
     [JObj [(''object'', JStr ''list''), (''results'', JArr [JObj [(''id'', JStr ''r1'')]]),
            (''has_more'', JBool True), (''next_cursor'', JStr ''c2'')],
      JObj [(''object'', JStr ''list''),
            (''results'', JArr [JObj [(''id'', JStr ''r2'')], JObj [(''id'', JStr ''r3'')]]),
            (''has_more'', JBool False), (''next_cursor'', JNull)]]"

definition example_query_pages :: "(json list \<times> bool \<times> json) list" where
  "example_query_pages =
     [([JObj [(''id'', JStr ''r1'')]], True, JStr ''c2''),
      ([JObj [(''id'', JStr ''r2'')], JObj [(''id'', JStr ''r3'')]], False, JNull)]"

definition example_query :: "(string \<times> json) list" where
  "example_query = [(''database_id'', JStr ''db1'')]"

text \<open>An exchange of the trace answers with a response that is the given page.\<close>

definition calendar_exchange :: "(api_call \<times> (py_error + json)) \<Rightarrow> (json list \<times> string option) \<Rightarrow> bool" where
  "calendar_exchange entry page =
     (case snd entry of Inl e \<Rightarrow> False
      | Inr response \<Rightarrow> calendar_page response (fst page) (snd page))"

definition notion_exchange :: "(api_call \<times> (py_error + json)) \<Rightarrow> (json list \<times> bool \<times> json) \<Rightarrow> bool" where
  "notion_exchange entry page =
     (case snd entry of Inl e \<Rightarrow> False
      | Inr response \<Rightarrow> notion_page response (fst page) (fst (snd page)) (snd (snd page)))"

definition endless_calendar_response :: json where
  "endless_calendar_response =
     JObj [(''items'', JArr [JObj [(''id'', JStr ''e1'')]]), (''nextPageToken'', JStr ''again'')]"

definition endless_query_response :: json where
  "endless_query_response =
     JObj [(''results'', JArr [JObj [(''id'', JStr ''r1'')]]), (''has_more'', JBool True),
           (''next_cursor'', JStr ''again'')]"

section \<open>Reading a workspace as a tree of content blocks\<close>

text \<open>
  A tree of content blocks: a block record and the subtrees of its children. The root of a
  traversal is an identifier only; below it hangs a forest.
\<close>

datatype tree = Node (block_of: json) (kids: "tree list")

fun tree_blocks :: "tree \<Rightarrow> json list" where
  "tree_blocks (Node b ts) = b # concat (map tree_blocks ts)"

text \<open>Every block strictly below the root.\<close>

definition blocks_below :: "tree list \<Rightarrow> json list" where
  "blocks_below ts = concat (map tree_blocks ts)"

text \<open>The pairs of a block and one of its child blocks.\<close>

fun edges :: "tree \<Rightarrow> (json \<times> json) list" where
  "edges (Node b ts) = map (\<lambda>t. (b, block_of t)) ts @ concat (map edges ts)"

definition forest_edges :: "tree list \<Rightarrow> (json \<times> json) list" where
  "forest_edges ts = concat (map edges ts)"

text \<open>The \<open>has_children\<close> flag as the flattener reads it, and a block's identifier.\<close>

fun flagged :: "json \<Rightarrow> bool" where
  "flagged (JObj d) = truthy (dict_get d ''has_children'' (JBool False))"
| "flagged _ = False"

fun the_id :: "json \<Rightarrow> json" where
  "the_id (JObj d) = dict_get d ''id'' JNull"
| "the_id _ = JNull"

text \<open>
  The provider's answers are those of a fixed workspace: \<open>answer\<close> gives the outcome of a call
  whatever the provider's state. \<open>lists\<close>: the children listing of an identifier, asked
  without a cursor, succeeds with exactly the given blocks as its \<open>results\<close>.
\<close>

definition lists :: "(api_call \<Rightarrow> py_error + json) \<Rightarrow> json \<Rightarrow> json list \<Rightarrow> bool" where
  "lists answer block_id children =
     (case answer (children_list block_id) of
        Inr (JObj r) \<Rightarrow> dict_get r ''results'' (JArr []) = JArr children
      | _ \<Rightarrow> False)"

text \<open>
  The workspace holds the tree on the first pages of its listings: every block is a record;
  a block whose \<open>has_children\<close> flag is set has an identifier under which the provider
  lists, without a cursor, exactly its child blocks; a block whose flag is not set has no
  children. Only the first page of a listing counts: \<open>has_more\<close> and \<open>next_cursor\<close> are not
  read, so a tree with a node whose children run over to a later page is not held.
\<close>

fun serves :: "(api_call \<Rightarrow> py_error + json) \<Rightarrow> tree \<Rightarrow> bool" where
  "serves answer (Node b ts) =
     (case b of
        JObj d \<Rightarrow>
          if flagged b then
            (case map_of d ''id'' of
               None \<Rightarrow> False
             | Some block_id \<Rightarrow> lists answer block_id (map block_of ts) \<and> (\<forall>t \<in> set ts. serves answer t))
          else ts = []
      | _ \<Rightarrow> False)"

definition serves_root :: "(api_call \<Rightarrow> py_error + json) \<Rightarrow> json \<Rightarrow> tree list \<Rightarrow> bool" where
  "serves_root answer block_id ts =
     (lists answer block_id (map block_of ts) \<and> (\<forall>t \<in> set ts. serves answer t))"

text \<open>The identifiers of the blocks below the root whose children get scheduled.\<close>

fun scheduled_ids :: "tree \<Rightarrow> json list" where
  "scheduled_ids (Node b ts) =
     (if flagged b then [the_id b] else []) @ concat (map scheduled_ids ts)"

text \<open>In \<open>xs\<close>, the first occurrence of \<open>p\<close> is followed by an occurrence of \<open>c\<close>.\<close>

definition precedes :: "'a \<Rightarrow> 'a \<Rightarrow> 'a list \<Rightarrow> bool" where
  "precedes p c xs = (c \<in> set (tl (dropWhile (\<lambda>x. x \<noteq> p) xs)))"

text \<open>
  The traversal on the tree itself. A pending entry is an identifier with the forest the
  provider lists under it; the last entry is the top of the stack. \<open>pops\<close> gives the entries
  in the order in which they are popped.
\<close>

fun nodes :: "tree \<Rightarrow> nat" where
  "nodes (Node b ts) = Suc (sum_list (map nodes ts))"

definition scheduled :: "tree list \<Rightarrow> (json \<times> tree list) list" where
  "scheduled ts = map (\<lambda>t. (the_id (block_of t), kids t)) (filter (\<lambda>t. flagged (block_of t)) ts)"

definition pending_size :: "(json \<times> tree list) list \<Rightarrow> nat" where
  "pending_size stack = sum_list (map (\<lambda>e. Suc (sum_list (map nodes (snd e)))) stack)"

function pops :: "(json \<times> tree list) list \<Rightarrow> (json \<times> tree list) list" where
  "pops stack =
     (if stack = [] then []
      else last stack # pops (butlast stack @ scheduled (snd (last stack))))"
  by pat_completeness auto

termination
proof (relation "measure pending_size")
  show "wf (measure pending_size)" by simp
next
  fix stack :: "(json \<times> tree list) list"
  assume "stack \<noteq> []"
  then obtain rest e where stack: "stack = rest @ [e]"
    by (cases stack rule: rev_cases) auto
  have kids: "Suc (sum_list (map nodes (kids t))) \<le> nodes t" for t
    by (cases t) simp
  have "pending_size (scheduled ts) \<le> sum_list (map nodes ts)" for ts
  proof (induction ts)
    case Nil
    show ?case by (simp add: pending_size_def scheduled_def)
  next
    case (Cons t ts)
    with kids [of t] show ?case
      by (simp add: pending_size_def scheduled_def)
  qed
  from this [of "snd e"] stack
  show "(butlast stack @ scheduled (snd (last stack)), stack) \<in> measure pending_size"
    by (simp add: pending_size_def)
qed

declare pops.simps [simp del]

text \<open>A pending entry the workspace holds: its identifier lists its forest.\<close>

definition entry_ok :: "(api_call \<Rightarrow> py_error + json) \<Rightarrow> json \<times> tree list \<Rightarrow> bool" where
  "entry_ok answer e = serves_root answer (fst e) (snd e)"

text \<open>The blocks the traversal emits, from the entries it pops.\<close>

definition emitted :: "(json \<times> tree list) list \<Rightarrow> json list" where
  "emitted stack = concat (map (\<lambda>e. map block_of (snd e)) (pops stack))"

text \<open>What the provider's first answer to a call lists: the blocks of the first page.\<close>

fun first_page :: "py_error + json \<Rightarrow> json list" where
  "first_page (Inr (JObj r)) =
     (case py_iter (dict_get r ''results'' (JArr [])) of Inl e \<Rightarrow> [] | Inr bs \<Rightarrow> bs)"
| "first_page _ = []"

text \<open>The calls logged by one iteration of the flattener's loop.\<close>

fun trace_after ::
  "(json \<times> trace \<times> 's) + ('s \<times> json list \<times> json list \<times> trace) \<Rightarrow> trace" where
  "trace_after (Inl (result, tr, s)) = tr"
| "trace_after (Inr (s, collected_blocks, blocks_to_process, tr)) = tr"

text \<open>
  A stub workspace that answers each call by a fixed function. The example of the
  specification: a page with two children, the first of which has two children.
\<close>

definition fixed_workspace :: "(api_call \<Rightarrow> py_error + json) \<Rightarrow> unit upstream" where
  "fixed_workspace answer s c = (answer c, s)"

definition leaf_block :: "string \<Rightarrow> json" where
  "leaf_block name = JObj [(''id'', JStr name), (''type'', JStr ''paragraph''), (''has_children'', JBool False)]"

definition parent_block :: "string \<Rightarrow> json" where
  "parent_block name = JObj [(''id'', JStr name), (''type'', JStr ''toggle''), (''has_children'', JBool True)]"

definition example_forest :: "tree list" where
  "example_forest =
     [Node (parent_block ''a'') [Node (leaf_block ''a1'') [], Node (leaf_block ''a2'') []],
      Node (leaf_block ''b'') []]"

definition example_answer :: "api_call \<Rightarrow> py_error + json" where
  "example_answer c =
     (if c = children_list (JStr ''page'') then
        Inr (JObj [(''object'', JStr ''list''),
                   (''results'', JArr [parent_block ''a'', leaf_block ''b'']),
                   (''has_more'', JBool False)])
      else if c = children_list (JStr ''a'') then
        Inr (JObj [(''object'', JStr ''list''),
                   (''results'', JArr [leaf_block ''a1'', leaf_block ''a2'']),
                   (''has_more'', JBool False)])
      else Inl (Raised ''Could not find block''))"

text \<open>A workspace in which the listing of the block \<open>a\<close> fails.\<close>

definition failing_answer :: "api_call \<Rightarrow> py_error + json" where
  "failing_answer c =
     (if c = children_list (JStr ''page'') then
        Inr (JObj [(''results'', JArr [parent_block ''a'', leaf_block ''b''])])
      else Inl (Raised ''Rate limited''))"

text \<open>
  A workspace whose page has two pages of children: the listing without a cursor gives the
  block \<open>b1\<close> and a cursor, the listing with that cursor would give the block \<open>b2\<close>.
\<close>

definition two_page_answer :: "api_call \<Rightarrow> py_error + json" where
  "two_page_answer c =
     (case c of Call operation kw \<Rightarrow>
        if map_of kw ''start_cursor'' = None then
          Inr (JObj [(''results'', JArr [leaf_block ''b1'']), (''has_more'', JBool True),
                     (''next_cursor'', JStr ''c2'')])
        else
          Inr (JObj [(''results'', JArr [leaf_block ''b2'']), (''has_more'', JBool False),
                     (''next_cursor'', JNull)]))"

text \<open>A children listing whose only keyword argument is the block identifier.\<close>

definition first_page_call :: "api_call \<Rightarrow> bool" where
  "first_page_call c = (case c of Call operation kw \<Rightarrow>
     operation = ''blocks.children.list'' \<and> map fst kw = [''block_id''])"

text \<open>The one call the flattener issues in the workspace with two pages of children.\<close>

definition two_page_trace :: trace where
  "two_page_trace =
     [(Call ''blocks.children.list'' [(''block_id'', JStr ''page'')],
       Inr (JObj [(''results'', JArr [leaf_block ''b1'']), (''has_more'', JBool True),
                  (''next_cursor'', JStr ''c2'')]))]"

text \<open>
  The children that page really has, over both pages of its listing.
\<close>

definition two_page_forest :: "tree list" where
  "two_page_forest = [Node (leaf_block ''b1'') [], Node (leaf_block ''b2'') []]"

section \<open>Properties of the Text Extractor\<close>

lemma and_then_Inr [simp]: "and_then (Inr v) k = k v"
  by (simp add: and_then_def)

lemma and_then_Inl [simp]: "and_then (Inl e) k = Inl e"
  by (simp add: and_then_def)

lemma plain_texts_spans:
  "list_all2 span_has_text spans texts \<Longrightarrow> plain_texts spans = Inr (map JStr texts)"
proof (induction spans texts rule: list_all2_induct)
  case Nil
  show ?case by simp
next
  case (Cons span spans s texts)
  from Cons.hyps(1) have "py_get span ''plain_text'' (JStr '''') = Inr (JStr s)"
    by (cases span) (auto simp: dict_get_def split: option.splits json.splits)
  with Cons.IH show ?case by simp
qed

lemma join_from_strings: "join_from i (map JStr texts) = Inr (concat texts)"
  by (induction texts arbitrary: i) simp_all

lemma extract_block_described:
  assumes "describes block view"
  shows "extract_block block text_content = Inr (text_content @ map JStr (contribution view))"
proof (cases block)
  case (JObj kv)
  show ?thesis
  proof (cases view)
    case (TextBlock ty texts)
    with JObj assms obtain data spans where
      ty: "ty \<in> set text_types" "map_of kv ''type'' = Some (JStr ty)" and
      data: "dict_get kv ty (JObj []) = JObj data" and
      spans: "dict_get data ''rich_text'' (JArr []) = JArr spans" and
      texts: "list_all2 span_has_text spans texts"
      by (auto split: json.splits)
    from texts have "plain_texts spans = Inr (map JStr texts)"
      by (rule plain_texts_spans)
    with JObj TextBlock ty data spans show ?thesis
      by (simp add: extract_block_def dict_get_def py_join_def join_from_strings)
  next
    case (ChildPage title)
    with JObj assms obtain data where
      "map_of kv ''type'' = Some (JStr ''child_page'')"
      "dict_get kv ''child_page'' (JObj []) = JObj data"
      "dict_get data ''title'' (JStr '''') = JStr title"
      by (auto split: json.splits)
    with JObj ChildPage show ?thesis
      by (simp add: extract_block_def dict_get_def text_types_def)
  next
    case OtherBlock
    with JObj assms obtain ty where
      "map_of kv ''type'' = Some (JStr ty)" "ty \<notin> set text_types" "ty \<noteq> ''child_page''"
      by (auto split: option.splits json.splits)
    with JObj OtherBlock show ?thesis
      by (simp add: extract_block_def dict_get_def)
  qed
qed (use assms in simp_all)

lemma extract_loop_described:
  "list_all2 describes blocks views \<Longrightarrow>
   extract_loop blocks text_content =
     Inr (text_content @ map JStr (concat (map contribution views)))"
proof (induction blocks views arbitrary: text_content rule: list_all2_induct)
  case Nil
  show ?case by simp
next
  case (Cons block blocks view views)
  from Cons.hyps(1) Cons.IH show ?case
    by (simp add: extract_block_described)
qed

text \<open>
  C4. On every sequence of content blocks, the extractor returns, in input order and without
  dropping repetitions, one string per text-bearing block (the plain texts of its rich-text
  spans concatenated with no separator, wrapped in \<^verbatim>\<open>**\<close> for the three heading levels), the
  title of every nested-page reference (empty when absent), and nothing for any other type.
\<close>

theorem extract_text_from_blocks_contributions:
  assumes "list_all2 describes blocks views"
  shows "extract_text_from_blocks (JArr blocks) =
           Inr (map JStr (concat (map contribution views)))"
  using extract_loop_described [OF assms, of "[]"]
  by (simp add: extract_text_from_blocks_def)

theorem extract_text_from_blocks_contributions_witness:
  "list_all2 describes example_blocks example_views \<and>
   extract_text_from_blocks (JArr example_blocks) =
     Inr [JStr ''**Hello World**'', JStr ''ab'', JStr ''Notes'', JStr '''', JStr ''ab'']"
proof -
  have d: "list_all2 describes example_blocks example_views"
    by (simp add: example_blocks_def example_views_def dict_get_def text_types_def)
  from extract_text_from_blocks_contributions [OF d] d show ?thesis
    by (simp add: example_views_def heading_types_def)
qed

section \<open>Properties of the calendar handlers\<close>

lemma and_then_eq_Inr: "and_then r f = Inr y \<longleftrightarrow> (\<exists>x. r = Inr x \<and> f x = Inr y)"
  by (cases r) simp_all

lemma set_if_field:
  assumes "(if v \<noteq> JNull then py_setitem ev k v else Inr ev) = Inr ev'"
  shows "field ev' k' = (if k' = k \<and> v \<noteq> JNull then Some v else field ev k')"
  using assms by (cases ev) (auto simp: update_conv' split: if_splits)

lemma overwrite_fields_field:
  assumes "overwrite_fields (JObj d) event = Inr body"
  shows "field body k = (case requested d k of Some v \<Rightarrow> Some v | None \<Rightarrow> field event k)"
proof -
  let ?g = "\<lambda>k. dict_get d k JNull"
  from assms obtain e1 e2 e3 e4 where
    1: "(if ?g ''summary'' \<noteq> JNull then py_setitem event ''summary'' (?g ''summary'')
         else Inr event) = Inr e1" and
    2: "(if ?g ''description'' \<noteq> JNull then py_setitem e1 ''description'' (?g ''description'')
         else Inr e1) = Inr e2" and
    3: "(if ?g ''start_time'' \<noteq> JNull
         then py_setitem e2 ''start'' (JObj [(''dateTime'', ?g ''start_time'')])
         else Inr e2) = Inr e3" and
    4: "(if ?g ''end_time'' \<noteq> JNull
         then py_setitem e3 ''end'' (JObj [(''dateTime'', ?g ''end_time'')])
         else Inr e3) = Inr e4" and
    5: "(if ?g ''attendees'' \<noteq> JNull
         then and_then (py_iter (?g ''attendees'')) (\<lambda>emails.
                py_setitem e4 ''attendees''
                  (JArr (map (\<lambda>attendee. JObj [(''email'', attendee)]) emails)))
         else Inr e4) = Inr body"
    unfolding overwrite_fields_def by (simp add: and_then_eq_Inr) blast
  have f1: "field e1 k = (if k = ''summary'' \<and> ?g ''summary'' \<noteq> JNull
                          then Some (?g ''summary'') else field event k)"
    by (rule set_if_field [OF 1])
  have f2: "field e2 k = (if k = ''description'' \<and> ?g ''description'' \<noteq> JNull
                          then Some (?g ''description'') else field e1 k)"
    by (rule set_if_field [OF 2])
  have f3: "field e3 k = (if k = ''start'' \<and> ?g ''start_time'' \<noteq> JNull
                          then Some (JObj [(''dateTime'', ?g ''start_time'')]) else field e2 k)"
    using 3 by (cases e2) (auto simp: update_conv' split: if_splits)
  have f4: "field e4 k = (if k = ''end'' \<and> ?g ''end_time'' \<noteq> JNull
                          then Some (JObj [(''dateTime'', ?g ''end_time'')]) else field e3 k)"
    using 4 by (cases e3) (auto simp: update_conv' split: if_splits)
  have f5: "field body k = (if k = ''attendees'' \<and> ?g ''attendees'' \<noteq> JNull
                            then requested d ''attendees'' else field e4 k)"
    using 5 by (cases e4)
      (auto simp: requested_def present_def update_conv' and_then_eq_Inr
            split: if_splits json.splits)
  have p: "\<And>k. present d k = (if ?g k = JNull then None else Some (?g k))"
    by (simp add: present_def split: json.splits)
  have a: "?g ''attendees'' = JNull \<Longrightarrow> requested d ''attendees'' = None"
    by (simp add: requested_def p)
  have b: "?g ''attendees'' \<noteq> JNull \<Longrightarrow> requested d ''attendees'' \<noteq> None"
    using 5 by (auto simp: requested_def p and_then_eq_Inr)
  consider "k = ''summary''" | "k = ''description''" | "k = ''start''" | "k = ''end''"
    | "k = ''attendees''" | "k \<notin> set known_fields"
    by (auto simp: known_fields_def)
  then show ?thesis
  proof cases
    case 1
    with f5 f4 f3 f2 f1 show ?thesis by (simp add: requested_def p)
  next
    case 2
    with f5 f4 f3 f2 f1 show ?thesis by (simp add: requested_def p)
  next
    case 3
    with f5 f4 f3 f2 f1 show ?thesis by (simp add: requested_def p)
  next
    case 4
    with f5 f4 f3 f2 f1 show ?thesis by (simp add: requested_def p)
  next
    case 5
    with f5 f4 f3 f2 f1 a b show ?thesis by (cases "?g ''attendees'' = JNull") auto
  next
    case 6
    with f5 f4 f3 f2 f1 show ?thesis by (simp add: requested_def known_fields_def)
  qed
qed

lemma requested_unknown: "k \<notin> set known_fields \<Longrightarrow> requested d k = None"
  by (simp add: requested_def known_fields_def)

lemma edit_event_calls:
  assumes run: "edit_event svc s data = (resp, tr, s')"
      and upd: "(Call ''events.update'' kw, r2) \<in> set tr"
  shows "\<exists>d kw1 event body.
           data = JObj d \<and> hd tr = (Call ''events.get'' kw1, Inr event) \<and>
           overwrite_fields data event = Inr body \<and> map_of kw ''body'' = Some body"
proof (cases svc)
  case (Inl e)
  with run upd show ?thesis by (simp add: edit_event_def)
next
  case (Inr service)
  show ?thesis
  proof (cases data)
    case (JObj d)
    with Inr run upd show ?thesis
      by (auto simp: edit_event_def Let_def split: if_splits sum.splits prod.splits)
  qed (use Inr run upd in \<open>simp_all add: edit_event_def\<close>)
qed

text \<open>
  C9. Whenever \<^verbatim>\<open>edit_event\<close> issues the update call, the body it sends is the event it
  fetched with \<open>summary\<close>, \<open>description\<close>, \<open>start\<close>, \<open>end\<close> and \<open>attendees\<close> replaced by what the
  request asks for, each only when the request carries that field with a non-null value;
  every other field of the fetched event is sent unchanged.
\<close>

theorem edit_event_overwrites_known_fields_only:
  assumes run: "edit_event svc s data = (resp, tr, s')"
      and upd: "(Call ''events.update'' kw, r2) \<in> set tr"
  shows "\<exists>d kw1 event body.
           data = JObj d \<and> hd tr = (Call ''events.get'' kw1, Inr event) \<and>
           map_of kw ''body'' = Some body \<and>
           (\<forall>k. field body k =
                  (case requested d k of Some v \<Rightarrow> Some v | None \<Rightarrow> field event k)) \<and>
           (\<forall>k. k \<notin> set known_fields \<longrightarrow> field body k = field event k)"
proof -
  from edit_event_calls [OF run upd] obtain d kw1 event body where
    d: "data = JObj d" and g: "hd tr = (Call ''events.get'' kw1, Inr event)" and
    o: "overwrite_fields data event = Inr body" and b: "map_of kw ''body'' = Some body"
    by blast
  from o d have f:
    "\<And>k. field body k = (case requested d k of Some v \<Rightarrow> Some v | None \<Rightarrow> field event k)"
    by (simp add: overwrite_fields_field)
  then have "\<forall>k. k \<notin> set known_fields \<longrightarrow> field body k = field event k"
    by (simp add: requested_unknown)
  with d g b f show ?thesis by blast
qed

theorem edit_event_overwrites_known_fields_only_witness:
  "edit_event (Inr calendar_stub) () (JObj example_edit) =
     (Jsonify 200 example_edited,
      [(Call ''events.get'' [(''calendarId'', JStr ''primary''), (''eventId'', JStr ''e1'')],
        Inr example_event),
       (Call ''events.update'' example_update_args, Inr example_edited)], ()) \<and>
   (\<exists>d kw1 event body.
      JObj example_edit = JObj d \<and>
      (Call ''events.get'' [(''calendarId'', JStr ''primary''), (''eventId'', JStr ''e1'')],
        Inr example_event) = (Call ''events.get'' kw1, Inr event) \<and>
      map_of example_update_args ''body'' = Some body \<and>
      (\<forall>k. field body k =
             (case requested d k of Some v \<Rightarrow> Some v | None \<Rightarrow> field event k)) \<and>
      (\<forall>k. k \<notin> set known_fields \<longrightarrow> field body k = field event k))"
proof -
  have run: "edit_event (Inr calendar_stub) () (JObj example_edit) =
     (Jsonify 200 example_edited,
      [(Call ''events.get'' [(''calendarId'', JStr ''primary''), (''eventId'', JStr ''e1'')],
        Inr example_event),
       (Call ''events.update'' example_update_args, Inr example_edited)], ())"
    by (simp add: edit_event_def calendar_stub_def example_edit_def example_edited_def
        example_event_def example_update_args_def overwrite_fields_def dict_get_def)
  have upd: "(Call ''events.update'' example_update_args, Inr example_edited)
      \<in> set [(Call ''events.get'' [(''calendarId'', JStr ''primary''), (''eventId'', JStr ''e1'')],
               Inr example_event),
              (Call ''events.update'' example_update_args, Inr example_edited)]"
    by simp
  from edit_event_overwrites_known_fields_only [OF run upd] run show ?thesis
    by simp
qed

text \<open>
  C7, as the code has it. Once \<^verbatim>\<open>get_calendar_service()\<close> has returned a service: a
  create-event request whose body is a JSON object without \<open>summary\<close>, \<open>start_time\<close> or
  \<open>end_time\<close> is answered by \<^verbatim>\<open>abort(400)\<close> with no calendar call issued, and a delete
  request without \<open>event_id\<close> likewise.
\<close>

theorem missing_parameter_rejected_without_call:
  "(map_of d ''summary'' = None \<or> map_of d ''start_time'' = None \<or> map_of d ''end_time'' = None
      \<longrightarrow> create_event (Inr service) s (JObj d) =
            (Abort 400 ''Missing required event fields.'', [], s)) \<and>
   (map_of args ''event_id'' = None
      \<longrightarrow> delete_event (Inr service') s' args = (Abort 400 ''Event ID is required.'', [], s'))"
  by (auto simp: create_event_def delete_event_def dict_get_def args_get_def)

theorem missing_parameter_rejected_without_call_witness:
  "map_of example_create ''start_time'' = None \<and>
   create_event (Inr calendar_stub) () (JObj example_create) =
     (Abort 400 ''Missing required event fields.'', [], ()) \<and>
   map_of [(''calendar_id'', ''team'')] ''event_id'' = None \<and>
   delete_event (Inr calendar_stub) () [(''calendar_id'', ''team'')] =
     (Abort 400 ''Event ID is required.'', [], ())"
  using missing_parameter_rejected_without_call
    [of example_create calendar_stub "()" "[(''calendar_id'', ''team'')]" calendar_stub "()"]
  by (simp add: example_create_def)

text \<open>
  The claim as stated fails: a create-event request whose body is the JSON array \<^verbatim>\<open>[]\<close> has
  no \<open>summary\<close> and is answered with a 500 (\<^verbatim>\<open>data.get\<close> raises outside any \<^verbatim>\<open>try\<close>); a delete
  request without \<open>event_id\<close> is answered with a 500 when \<^verbatim>\<open>get_calendar_service()\<close>, which
  runs before the check, raises.
\<close>

theorem missing_parameter_answered_500:
  "status (fst (create_event (Inr calendar_stub) () (JArr []))) = 500 \<and>
   status (fst (delete_event (Inl (Raised ''credentials.json is missing'')) () [])) = 500"
  by (simp add: create_event_def delete_event_def)

section \<open>Properties of the Paginated Collector\<close>

lemma iterate_Inl: "body st = Inl r \<Longrightarrow> iterate body st = Some r"
  by (subst iterate.simps) simp

lemma iterate_Inr: "body st = Inr st1 \<Longrightarrow> iterate body st = iterate body st1"
  by (subst iterate.simps) simp

lemma iterate_Some_leaves:
  assumes run: "iterate body st = Some r"
      and step: "\<And>st. I st \<Longrightarrow> \<exists>st1. body st = Inr st1 \<and> I st1"
  shows "\<not> I st"
proof -
  have "(\<forall>st. I st \<longrightarrow> (\<exists>st1. body st = Inr st1 \<and> I st1)) \<longrightarrow> \<not> I st"
  proof (rule iterate.raw_induct
      [where P = "\<lambda>b s y. (\<forall>st. I st \<longrightarrow> (\<exists>st1. b st = Inr st1 \<and> I st1)) \<longrightarrow> \<not> I s", OF _ run])
    fix it b s y
    assume IH: "\<And>b s y. it b s = Some y \<Longrightarrow>
                 (\<forall>st. I st \<longrightarrow> (\<exists>st1. b st = Inr st1 \<and> I st1)) \<longrightarrow> \<not> I s"
      and unfolded: "(case b s of Inl r \<Rightarrow> Some r | Inr st1 \<Rightarrow> it b st1) = Some y"
    show "(\<forall>st. I st \<longrightarrow> (\<exists>st1. b st = Inr st1 \<and> I st1)) \<longrightarrow> \<not> I s"
    proof (intro impI notI)
      assume all: "\<forall>st. I st \<longrightarrow> (\<exists>st1. b st = Inr st1 \<and> I st1)" and "I s"
      then obtain s1 where b: "b s = Inr s1" and i: "I s1" by blast
      from b unfolded have "it b s1 = Some y" by simp
      from IH [OF this] all i show False by simp
    qed
  qed
  with step show ?thesis by blast
qed

lemma iterate_never_leaves:
  assumes "I st" and "\<And>st. I st \<Longrightarrow> \<exists>st1. body st = Inr st1 \<and> I st1"
  shows "iterate body st = None"
proof (cases "iterate body st")
  case (Some r)
  from iterate_Some_leaves [OF this, of I] assms show ?thesis by blast
qed simp

lemma read_events_page_calendar:
  assumes "calendar_page response items cursor"
  shows "read_events_page response events =
           Inr (events @ items, case cursor of None \<Rightarrow> JNull | Some t \<Rightarrow> JStr t)"
proof (cases response)
  case (JObj d)
  with assms show ?thesis
    by (cases cursor) (simp_all add: read_events_page_def dict_get_def)
qed (use assms in simp_all)

lemma query_page_notion:
  assumes "notion_page response results more cursor"
  shows "query_page response acc = Inr (acc @ results, JBool more, cursor)"
proof (cases response)
  case (JObj d)
  with assms show ?thesis
    by (simp add: query_page_def dict_get_def)
qed (use assms in simp_all)

lemma read_events_loop_run:
  "calendar_run service (events_list cid tmin tmax) s tok pages \<Longrightarrow>
   \<exists>tr' s'. iterate (read_events_body service cid tmin tmax) (s, events, tok, tr) =
       Some (Jsonify 200 (JArr (events @ concat (map fst pages))), tr @ tr', s') \<and>
     map fst tr' = map (events_list cid tmin tmax) (tok # calendar_cursors pages) \<and>
     list_all2 calendar_exchange tr' pages"
proof (induction pages arbitrary: s tok events tr)
  case Nil
  then show ?case by simp
next
  case (Cons page more)
  obtain items cursor where page: "page = (items, cursor)" by (cases page)
  let ?c = "events_list cid tmin tmax tok"
  from Cons.prems page obtain response s1 where
    call: "service s ?c = (Inr response, s1)" and
    pg: "calendar_page response items cursor" and
    rest: "case cursor of None \<Rightarrow> more = []
           | Some t \<Rightarrow> calendar_run service (events_list cid tmin tmax) s1 (JStr t) more"
    by (auto split: prod.splits sum.splits)
  note rp = read_events_page_calendar [OF pg, of events]
  show ?case
  proof (cases cursor)
    case None
    with rest have more: "more = []" by simp
    from call rp None
    have "read_events_body service cid tmin tmax (s, events, tok, tr) =
            Inl (Jsonify 200 (JArr (events @ items)), tr @ [(?c, Inr response)], s1)"
      by (simp add: read_events_body_def)
    from iterate_Inl [of "read_events_body service cid tmin tmax" "(s, events, tok, tr)", OF this]
      page more None pg show ?thesis
      by (simp add: calendar_exchange_def)
  next
    case (Some t)
    with pg have t: "t \<noteq> []" by (cases response) auto
    from call rp Some t
    have "read_events_body service cid tmin tmax (s, events, tok, tr) =
            Inr (s1, events @ items, JStr t, tr @ [(?c, Inr response)])"
      by (simp add: read_events_body_def)
    note step = iterate_Inr
      [of "read_events_body service cid tmin tmax" "(s, events, tok, tr)", OF this]
    from rest Some have "calendar_run service (events_list cid tmin tmax) s1 (JStr t) more" by simp
    from Cons.IH [OF this, of "events @ items" "tr @ [(?c, Inr response)]"]
    obtain tr' s' where
      1: "iterate (read_events_body service cid tmin tmax)
            (s1, events @ items, JStr t, tr @ [(?c, Inr response)]) =
          Some (Jsonify 200 (JArr ((events @ items) @ concat (map fst more))),
                (tr @ [(?c, Inr response)]) @ tr', s')" and
      2: "map fst tr' = map (events_list cid tmin tmax) (JStr t # calendar_cursors more)" and
      3: "list_all2 calendar_exchange tr' more"
      by blast
    show ?thesis
    proof (intro exI conjI)
      show "iterate (read_events_body service cid tmin tmax) (s, events, tok, tr) =
        Some (Jsonify 200 (JArr (events @ concat (map fst (page # more)))),
              tr @ ((?c, Inr response) # tr'), s')"
        using step 1 page by simp
      show "map fst ((?c, Inr response) # tr') =
        map (events_list cid tmin tmax) (tok # calendar_cursors (page # more))"
        using 2 page Some by simp
      show "list_all2 calendar_exchange ((?c, Inr response) # tr') (page # more)"
        using 3 pg page by (simp add: calendar_exchange_def)
    qed
  qed
qed

lemma query_loop_run:
  "notion_run notion (\<lambda>cur. databases_query dbid flt sorts cur psize) s cur pages \<Longrightarrow>
   \<exists>tr' s'. iterate (query_body notion dbid flt sorts psize) (s, results, cur, tr) =
       Some (Jsonify 200 (JArr (results @ concat (map fst pages))), tr @ tr', s') \<and>
     map fst tr' = map (\<lambda>cur. databases_query dbid flt sorts cur psize) (cur # notion_cursors pages) \<and>
     list_all2 notion_exchange tr' pages"
proof (induction pages arbitrary: s cur results tr)
  case Nil
  then show ?case by simp
next
  case (Cons page rest)
  obtain found more next_cursor where page: "page = (found, more, next_cursor)" by (cases page)
  let ?c = "databases_query dbid flt sorts cur psize"
  let ?body = "query_body notion dbid flt sorts psize"
  from Cons.prems page obtain response s1 where
    call: "notion s ?c = (Inr response, s1)" and
    pg: "notion_page response found more next_cursor" and
    rest: "if more then notion_run notion (\<lambda>cur. databases_query dbid flt sorts cur psize) s1 next_cursor rest
           else rest = []"
    by (auto split: prod.splits sum.splits)
  note qp = query_page_notion [OF pg, of results]
  show ?case
  proof (cases more)
    case False
    with rest have rest_empty: "rest = []" by simp
    from call qp False
    have "?body (s, results, cur, tr) =
            Inl (Jsonify 200 (JArr (results @ found)), tr @ [(?c, Inr response)], s1)"
      by (simp add: query_body_def)
    from iterate_Inl [of ?body "(s, results, cur, tr)", OF this] page rest_empty False pg
    show ?thesis
      by (simp add: notion_exchange_def)
  next
    case True
    from call qp True
    have "?body (s, results, cur, tr) =
            Inr (s1, results @ found, next_cursor, tr @ [(?c, Inr response)])"
      by (simp add: query_body_def)
    note step = iterate_Inr [of ?body "(s, results, cur, tr)", OF this]
    from rest True
    have "notion_run notion (\<lambda>cur. databases_query dbid flt sorts cur psize) s1 next_cursor rest"
      by simp
    from Cons.IH [OF this, of "results @ found" "tr @ [(?c, Inr response)]"]
    obtain tr' s' where
      1: "iterate ?body (s1, results @ found, next_cursor, tr @ [(?c, Inr response)]) =
          Some (Jsonify 200 (JArr ((results @ found) @ concat (map fst rest))),
                (tr @ [(?c, Inr response)]) @ tr', s')" and
      2: "map fst tr' = map (\<lambda>cur. databases_query dbid flt sorts cur psize)
                          (next_cursor # notion_cursors rest)" and
      3: "list_all2 notion_exchange tr' rest"
      by blast
    show ?thesis
    proof (intro exI conjI)
      show "iterate ?body (s, results, cur, tr) =
        Some (Jsonify 200 (JArr (results @ concat (map fst (page # rest)))),
              tr @ ((?c, Inr response) # tr'), s')"
        using step 1 page by simp
      show "map fst ((?c, Inr response) # tr') =
        map (\<lambda>cur. databases_query dbid flt sorts cur psize) (cur # notion_cursors (page # rest))"
        using 2 page True by simp
      show "list_all2 notion_exchange ((?c, Inr response) # tr') (page # rest)"
        using 3 pg page by (simp add: notion_exchange_def)
    qed
  qed
qed

lemma read_events_run:
  assumes "calendar_run service (read_events_request args utcnow) s JNull pages"
  shows "\<exists>tr s'. read_events (Inr service) s args utcnow =
             Some (Jsonify 200 (JArr (concat (map fst pages))), tr, s') \<and>
           map fst tr = map (read_events_request args utcnow) (JNull # calendar_cursors pages) \<and>
           list_all2 calendar_exchange tr pages"
proof -
  have eq: "read_events_request args utcnow =
      events_list (args_get args ''calendar_id'' (JStr ''primary''))
        (args_get args ''time_min'' (JStr (utcnow @ ''Z''))) (args_get args ''time_max'' JNull)"
    by (rule ext) (simp add: read_events_request_def)
  from read_events_loop_run [OF assms [unfolded eq], of "[]" "[]"] show ?thesis
    by (simp add: read_events_def eq)
qed

lemma query_notion_database_run:
  assumes "truthy (dict_get d ''database_id'' JNull)"
      and "notion_run notion (query_request d) s JNull pages"
  shows "\<exists>tr s'. query_notion_database notion s (JObj d) =
             Some (Jsonify 200 (JArr (concat (map fst pages))), tr, s') \<and>
           map fst tr = map (query_request d) (JNull # notion_cursors pages) \<and>
           list_all2 notion_exchange tr pages"
proof -
  have eq: "query_request d =
      (\<lambda>cur. databases_query (dict_get d ''database_id'' JNull) (dict_get d ''filter'' JNull)
         (dict_get d ''sorts'' JNull) cur (dict_get d ''page_size'' (JNum 100)))"
    by (rule ext) (simp add: query_request_def)
  from query_loop_run [OF assms(2) [unfolded eq], of "[]" "[]"] assms(1) show ?thesis
    by (simp add: query_notion_database_def eq)
qed

text \<open>
  C2. When the provider serves N pages, the last one signalling completion, \<^verbatim>\<open>read_events\<close> and
  \<^verbatim>\<open>query_notion_database\<close> each return, with status 200, exactly the pages' item lists
  concatenated in page order.
\<close>

theorem collectors_concatenate_pages:
  assumes "calendar_run service (read_events_request args utcnow) s JNull pages"
      and "truthy (dict_get d ''database_id'' JNull)"
      and "notion_run notion (query_request d) s' JNull qpages"
  shows "(\<exists>tr s1. read_events (Inr service) s args utcnow =
            Some (Jsonify 200 (JArr (concat (map fst pages))), tr, s1)) \<and>
         (\<exists>tr s1. query_notion_database notion s' (JObj d) =
            Some (Jsonify 200 (JArr (concat (map fst qpages))), tr, s1))"
  using read_events_run [OF assms(1)] query_notion_database_run [OF assms(2,3)] by blast

theorem collectors_concatenate_pages_witness:
  "calendar_run (paged_stub example_calendar_responses)
     (read_events_request [] ''2024-05-01T00:00:00'') 0 JNull example_calendar_pages \<and>
   truthy (dict_get example_query ''database_id'' JNull) \<and>
   notion_run (paged_stub example_query_responses) (query_request example_query) 0 JNull
     example_query_pages \<and>
   (\<exists>tr s1. read_events (Inr (paged_stub example_calendar_responses)) 0 [] ''2024-05-01T00:00:00'' =
      Some (Jsonify 200 (JArr [JObj [(''id'', JStr ''e1'')], JObj [(''id'', JStr ''e2'')],
                               JObj [(''id'', JStr ''e3'')]]), tr, s1)) \<and>
   (\<exists>tr s1. query_notion_database (paged_stub example_query_responses) 0 (JObj example_query) =
      Some (Jsonify 200 (JArr [JObj [(''id'', JStr ''r1'')], JObj [(''id'', JStr ''r2'')],
                               JObj [(''id'', JStr ''r3'')]]), tr, s1))"
proof -
  have 1: "calendar_run (paged_stub example_calendar_responses)
     (read_events_request [] ''2024-05-01T00:00:00'') 0 JNull example_calendar_pages"
    by (simp add: paged_stub_def example_calendar_responses_def example_calendar_pages_def
        dict_get_def)
  have 2: "truthy (dict_get example_query ''database_id'' JNull)"
    by (simp add: example_query_def dict_get_def)
  have 3: "notion_run (paged_stub example_query_responses) (query_request example_query) 0 JNull
     example_query_pages"
    by (simp add: paged_stub_def example_query_responses_def example_query_pages_def dict_get_def)
  from collectors_concatenate_pages [OF 1 2 3] 1 2 3 show ?thesis
    by (simp add: example_calendar_pages_def example_query_pages_def)
qed

text \<open>
  C3. The collectors stop exactly when the provider signals completion, each by its own
  convention. When the calendar serves pages of which only the last has no \<open>nextPageToken\<close>,
  \<^verbatim>\<open>read_events\<close> issues one list call per page and none after the last: the first without a
  page token, each later one with the token of the page before. When Notion serves pages of
  which only the last reports \<open>has_more\<close> false, \<^verbatim>\<open>query_notion_database\<close> issues one query per
  page and none after the last, each later one with the \<open>next_cursor\<close> of the page before.
\<close>

theorem collectors_stop_exactly_at_completion:
  assumes "calendar_run service (read_events_request args utcnow) s JNull pages"
      and "truthy (dict_get d ''database_id'' JNull)"
      and "notion_run notion (query_request d) s' JNull qpages"
  shows "(\<exists>resp tr s1. read_events (Inr service) s args utcnow = Some (resp, tr, s1) \<and>
            length tr = length pages \<and>
            map fst tr = map (read_events_request args utcnow) (JNull # calendar_cursors pages) \<and>
            list_all2 calendar_exchange tr pages) \<and>
         (\<exists>resp tr s1. query_notion_database notion s' (JObj d) = Some (resp, tr, s1) \<and>
            length tr = length qpages \<and>
            map fst tr = map (query_request d) (JNull # notion_cursors qpages) \<and>
            list_all2 notion_exchange tr qpages)"
proof -
  from read_events_run [OF assms(1)] obtain tr s1 where
    a: "read_events (Inr service) s args utcnow =
          Some (Jsonify 200 (JArr (concat (map fst pages))), tr, s1)"
       "map fst tr = map (read_events_request args utcnow) (JNull # calendar_cursors pages)"
       "list_all2 calendar_exchange tr pages"
    by blast
  from query_notion_database_run [OF assms(2,3)] obtain qtr qs1 where
    b: "query_notion_database notion s' (JObj d) =
          Some (Jsonify 200 (JArr (concat (map fst qpages))), qtr, qs1)"
       "map fst qtr = map (query_request d) (JNull # notion_cursors qpages)"
       "list_all2 notion_exchange qtr qpages"
    by blast
  from a(3) have la: "length tr = length pages" by (rule list_all2_lengthD)
  from b(3) have lb: "length qtr = length qpages" by (rule list_all2_lengthD)
  from a la b lb show ?thesis by blast
qed

theorem collectors_stop_exactly_at_completion_witness:
  "calendar_run (paged_stub example_calendar_responses)
     (read_events_request [] ''2024-05-01T00:00:00'') 0 JNull example_calendar_pages \<and>
   truthy (dict_get example_query ''database_id'' JNull) \<and>
   notion_run (paged_stub example_query_responses) (query_request example_query) 0 JNull
     example_query_pages \<and>
   (\<exists>resp tr s1.
      read_events (Inr (paged_stub example_calendar_responses)) 0 [] ''2024-05-01T00:00:00'' =
        Some (resp, tr, s1) \<and>
      length tr = 2 \<and>
      map fst tr = [read_events_request [] ''2024-05-01T00:00:00'' JNull,
                    read_events_request [] ''2024-05-01T00:00:00'' (JStr ''p2'')]) \<and>
   (\<exists>resp tr s1.
      query_notion_database (paged_stub example_query_responses) 0 (JObj example_query) =
        Some (resp, tr, s1) \<and>
      length tr = 2 \<and>
      map fst tr = [query_request example_query JNull, query_request example_query (JStr ''c2'')])"
proof -
  have 1: "calendar_run (paged_stub example_calendar_responses)
     (read_events_request [] ''2024-05-01T00:00:00'') 0 JNull example_calendar_pages"
    by (simp add: paged_stub_def example_calendar_responses_def example_calendar_pages_def
        dict_get_def)
  have 2: "truthy (dict_get example_query ''database_id'' JNull)"
    by (simp add: example_query_def dict_get_def)
  have 3: "notion_run (paged_stub example_query_responses) (query_request example_query) 0 JNull
     example_query_pages"
    by (simp add: paged_stub_def example_query_responses_def example_query_pages_def dict_get_def)
  have 4: "calendar_cursors example_calendar_pages = [JStr ''p2'']"
    by (simp add: example_calendar_pages_def)
  have 5: "notion_cursors example_query_pages = [JStr ''c2'']"
    by (simp add: example_query_pages_def)
  have 6: "length example_calendar_pages = 2" "length example_query_pages = 2"
    by (simp_all add: example_calendar_pages_def example_query_pages_def)
  note run = collectors_stop_exactly_at_completion [OF 1 2 3, unfolded 4 5 6 list.map]
  from run obtain resp tr s1 where
    a: "read_events (Inr (paged_stub example_calendar_responses)) 0 [] ''2024-05-01T00:00:00'' =
          Some (resp, tr, s1)"
       "length tr = 2"
       "map fst tr = [read_events_request [] ''2024-05-01T00:00:00'' JNull,
                      read_events_request [] ''2024-05-01T00:00:00'' (JStr ''p2'')]"
    by (elim conjE exE)
  from run obtain qresp qtr qs1 where
    b: "query_notion_database (paged_stub example_query_responses) 0 (JObj example_query) =
          Some (qresp, qtr, qs1)"
       "length qtr = 2"
       "map fst qtr = [query_request example_query JNull, query_request example_query (JStr ''c2'')]"
    by (elim conjE exE)
  from a have A: "\<exists>resp tr s1.
      read_events (Inr (paged_stub example_calendar_responses)) 0 [] ''2024-05-01T00:00:00'' =
        Some (resp, tr, s1) \<and>
      length tr = 2 \<and>
      map fst tr = [read_events_request [] ''2024-05-01T00:00:00'' JNull,
                    read_events_request [] ''2024-05-01T00:00:00'' (JStr ''p2'')]"
    by (intro exI conjI)
  from b have B: "\<exists>resp tr s1.
      query_notion_database (paged_stub example_query_responses) 0 (JObj example_query) =
        Some (resp, tr, s1) \<and>
      length tr = 2 \<and>
      map fst tr = [query_request example_query JNull, query_request example_query (JStr ''c2'')]"
    by (intro exI conjI)
  from 1 2 3 A B show ?thesis by (intro conjI)
qed

lemma read_events_body_continues:
  assumes "service s (events_list cid tmin tmax tok) = (Inr response, s1)"
      and "calendar_page response items (Some t)"
  shows "\<exists>st1. read_events_body service cid tmin tmax (s, events, tok, tr) = Inr st1"
proof -
  from assms(2) have t: "t \<noteq> []" by (cases response) auto
  from read_events_page_calendar [OF assms(2), of events] assms(1) t show ?thesis
    by (simp add: read_events_body_def)
qed

lemma query_body_continues:
  assumes "notion s (databases_query dbid flt sorts cur psize) = (Inr response, s1)"
      and "notion_page response found True next_cursor"
  shows "\<exists>st1. query_body notion dbid flt sorts psize (s, results, cur, tr) = Inr st1"
  using query_page_notion [OF assms(2), of results] assms(1)
  by (simp add: query_body_def)

text \<open>
  C8. No page count bounds the loops. Against a calendar whose every response carries a next
  page token, \<^verbatim>\<open>read_events\<close> does not return; against a Notion whose every response reports
  \<open>has_more\<close> true, \<^verbatim>\<open>query_notion_database\<close> does not return.
\<close>

theorem collectors_run_forever_without_completion:
  assumes cal: "\<And>s tok. \<exists>response s1 items t.
                  service s (read_events_request args utcnow tok) = (Inr response, s1) \<and>
                  calendar_page response items (Some t)"
      and db: "truthy (dict_get d ''database_id'' JNull)"
      and qry: "\<And>s cur. \<exists>response s1 results next_cursor.
                  notion s (query_request d cur) = (Inr response, s1) \<and>
                  notion_page response results True next_cursor"
  shows "read_events (Inr service) s0 args utcnow = None \<and>
         query_notion_database notion s0' (JObj d) = None"
proof
  let ?cid = "args_get args ''calendar_id'' (JStr ''primary'')"
  let ?tmin = "args_get args ''time_min'' (JStr (utcnow @ ''Z''))"
  let ?tmax = "args_get args ''time_max'' JNull"
  have "\<exists>st1. read_events_body service ?cid ?tmin ?tmax st = Inr st1 \<and> True" for st
  proof -
    obtain s events tok tr where st: "st = (s, events, tok, tr)" by (cases st)
    from cal [of s tok] obtain response s1 items t where
      "service s (events_list ?cid ?tmin ?tmax tok) = (Inr response, s1)"
      "calendar_page response items (Some t)"
      by (auto simp: read_events_request_def)
    from read_events_body_continues [where service = service and s = s, OF this] st show ?thesis by simp
  qed
  from iterate_never_leaves
    [of "\<lambda>st. True" _ "read_events_body service ?cid ?tmin ?tmax", OF TrueI this]
  show "read_events (Inr service) s0 args utcnow = None"
    by (simp add: read_events_def)
next
  let ?dbid = "dict_get d ''database_id'' JNull"
  let ?flt = "dict_get d ''filter'' JNull"
  let ?sorts = "dict_get d ''sorts'' JNull"
  let ?psize = "dict_get d ''page_size'' (JNum 100)"
  have "\<exists>st1. query_body notion ?dbid ?flt ?sorts ?psize st = Inr st1 \<and> True" for st
  proof -
    obtain s results cur tr where st: "st = (s, results, cur, tr)" by (cases st)
    from qry [of s cur] obtain response s1 found next_cursor where
      "notion s (databases_query ?dbid ?flt ?sorts cur ?psize) = (Inr response, s1)"
      "notion_page response found True next_cursor"
      by (auto simp: query_request_def)
    from query_body_continues [where notion = notion and s = s, OF this] st show ?thesis by simp
  qed
  from iterate_never_leaves
    [of "\<lambda>st. True" _ "query_body notion ?dbid ?flt ?sorts ?psize", OF TrueI this] db
  show "query_notion_database notion s0' (JObj d) = None"
    by (simp add: query_notion_database_def)
qed

theorem collectors_run_forever_without_completion_witness:
  "(\<forall>s tok. \<exists>response s1 items t.
      constant_stub endless_calendar_response s
        (read_events_request [] ''2024-05-01T00:00:00'' tok) = (Inr response, s1) \<and>
      calendar_page response items (Some t)) \<and>
   truthy (dict_get example_query ''database_id'' JNull) \<and>
   (\<forall>s cur. \<exists>response s1 results next_cursor.
      constant_stub endless_query_response s (query_request example_query cur) =
        (Inr response, s1) \<and>
      notion_page response results True next_cursor) \<and>
   read_events (Inr (constant_stub endless_calendar_response)) () [] ''2024-05-01T00:00:00'' = None \<and>
   query_notion_database (constant_stub endless_query_response) () (JObj example_query) = None"
proof -
  have 1: "\<exists>response s1 items t.
      constant_stub endless_calendar_response s
        (read_events_request [] ''2024-05-01T00:00:00'' tok) = (Inr response, s1) \<and>
      calendar_page response items (Some t)" for s tok
  proof -
    have "calendar_page endless_calendar_response [JObj [(''id'', JStr ''e1'')]] (Some ''again'')"
      by (simp add: endless_calendar_response_def dict_get_def)
    then show ?thesis
      by (auto simp: constant_stub_def)
  qed
  have 2: "truthy (dict_get example_query ''database_id'' JNull)"
    by (simp add: example_query_def dict_get_def)
  have 3: "\<exists>response s1 results next_cursor.
      constant_stub endless_query_response s (query_request example_query cur) =
        (Inr response, s1) \<and>
      notion_page response results True next_cursor" for s cur
  proof -
    have "notion_page endless_query_response [JObj [(''id'', JStr ''r1'')]] True (JStr ''again'')"
      by (simp add: endless_query_response_def dict_get_def)
    then show ?thesis
      by (auto simp: constant_stub_def)
  qed
  from collectors_run_forever_without_completion
    [of "constant_stub endless_calendar_response" "[]" "''2024-05-01T00:00:00''" example_query
        "constant_stub endless_query_response" "()" "()", OF 1 2 3] 1 2 3
  show ?thesis by blast
qed

section \<open>Properties of the Block Tree Flattener\<close>

lemma pops_Nil: "pops [] = []"
  by (subst pops.simps) simp

lemma pops_snoc: "pops (rest @ [e]) = e # pops (rest @ scheduled (snd e))"
  by (subst pops.simps) simp

lemma emitted_Nil: "emitted [] = []"
  by (simp add: emitted_def pops_Nil)

lemma emitted_snoc:
  "emitted (rest @ [e]) = map block_of (snd e) @ emitted (rest @ scheduled (snd e))"
  by (simp add: emitted_def pops_snoc)

lemma serves_block:
  assumes "serves answer t"
  shows "\<exists>d. block_of t = JObj d \<and>
           (flagged (block_of t) \<longrightarrow> map_of d ''id'' = Some (the_id (block_of t))) \<and>
           (flagged (block_of t) \<longrightarrow> entry_ok answer (the_id (block_of t), kids t)) \<and>
           (\<not> flagged (block_of t) \<longrightarrow> kids t = [])"
proof (cases t)
  case (Node b ts)
  with assms obtain d where d: "b = JObj d" by (cases b) auto
  with assms Node show ?thesis
    by (auto simp: dict_get_def entry_ok_def serves_root_def split: option.splits)
qed

lemma scan_children_forest:
  assumes "\<forall>t \<in> set ts. serves answer t"
  shows "scan_children (map block_of ts) collected todo =
           Inr (collected @ map block_of ts, todo @ map fst (scheduled ts))"
  using assms
proof (induction ts arbitrary: collected todo)
  case Nil
  show ?case by (simp add: scheduled_def)
next
  case (Cons t ts)
  from Cons.prems have "serves answer t" by simp
  from serves_block [OF this] obtain d where d: "block_of t = JObj d"
    and i: "flagged (block_of t) \<Longrightarrow> map_of d ''id'' = Some (the_id (block_of t))"
    by blast
  from Cons.prems have rest: "\<forall>t \<in> set ts. serves answer t" by simp
  show ?case
  proof (cases "flagged (block_of t)")
    case True
    with d i Cons.IH [OF rest] show ?thesis
      by (simp add: scheduled_def)
  next
    case False
    with d Cons.IH [OF rest] show ?thesis
      by (simp add: scheduled_def)
  qed
qed

lemma scheduled_ok:
  assumes "\<forall>t \<in> set ts. serves answer t"
  shows "\<forall>e \<in> set (scheduled ts). entry_ok answer e"
proof
  fix e assume "e \<in> set (scheduled ts)"
  then obtain t where t: "t \<in> set ts" "flagged (block_of t)"
    and e: "e = (the_id (block_of t), kids t)"
    by (auto simp: scheduled_def)
  from assms t(1) have "serves answer t" by simp
  from serves_block [OF this] t(2) e show "entry_ok answer e"
    by blast
qed

lemma retrieve_body_pop:
  assumes stable: "\<And>s c. fst (notion s c) = answer c"
      and ok: "entry_ok answer e"
  shows "\<exists>response s1. notion s (children_list (fst e)) = (Inr response, s1) \<and>
           first_page (Inr response) = map block_of (snd e) \<and>
           retrieve_body notion (s, collected, map fst (rest @ [e]), tr) =
             Inr (s1, collected @ map block_of (snd e), map fst (rest @ scheduled (snd e)),
                  tr @ [(children_list (fst e), Inr response)])"
proof -
  obtain r s1 where call: "notion s (children_list (fst e)) = (r, s1)"
    by (cases "notion s (children_list (fst e))")
  with stable [of s "children_list (fst e)"] have r: "answer (children_list (fst e)) = r" by simp
  from ok r obtain resp where resp: "r = Inr (JObj resp)"
    and res: "dict_get resp ''results'' (JArr []) = JArr (map block_of (snd e))"
    and forest: "\<forall>t \<in> set (snd e). serves answer t"
    by (auto simp: entry_ok_def serves_root_def lists_def split: sum.splits json.splits)
  from scan_children_forest [OF forest, of collected "map fst rest"] res
  have "expand_response (JObj resp) collected (map fst rest) =
          Inr (collected @ map block_of (snd e), map fst rest @ map fst (scheduled (snd e)))"
    by (simp add: expand_response_def)
  with call resp res show ?thesis
    by (simp add: retrieve_body_def)
qed

lemma retrieve_loop_tree:
  assumes stable: "\<And>s c. fst (notion s c) = answer c"
  shows "\<forall>e \<in> set stack. entry_ok answer e \<Longrightarrow>
         \<exists>tr' s'. iterate (retrieve_body notion) (s, collected, map fst stack, tr) =
             Some (JArr (collected @ emitted stack), tr @ tr', s') \<and>
           map fst tr' = map (\<lambda>e. children_list (fst e)) (pops stack) \<and>
           concat (map (\<lambda>x. first_page (snd x)) tr') = emitted stack"
proof (induction stack arbitrary: s collected tr rule: pops.induct)
  case (1 stack)
  show ?case
  proof (cases "stack = []")
    case True
    have "retrieve_body notion (s, collected, [], tr) = Inl (JArr collected, tr, s)"
      by (simp add: retrieve_body_def)
    from iterate_Inl [of "retrieve_body notion" "(s, collected, [], tr)", OF this] True
    show ?thesis by (simp add: emitted_Nil pops_Nil)
  next
    case False
    then obtain rest e where stack: "stack = rest @ [e]"
      by (cases stack rule: rev_cases) auto
    with "1.prems" have e: "entry_ok answer e" and rest: "\<forall>x \<in> set rest. entry_ok answer x"
      by simp_all
    from e have "\<forall>t \<in> set (snd e). serves answer t"
      by (simp add: entry_ok_def serves_root_def)
    from scheduled_ok [OF this] rest
    have next_ok: "\<forall>x \<in> set (butlast stack @ scheduled (snd (last stack))). entry_ok answer x"
      using stack by auto
    from retrieve_body_pop
      [where notion = notion and answer = answer and s = s and collected = collected and
         rest = rest and tr = tr, OF stable e]
    obtain response s1 where
      call: "notion s (children_list (fst e)) = (Inr response, s1)" and
      page: "first_page (Inr response) = map block_of (snd e)" and
      body: "retrieve_body notion (s, collected, map fst (rest @ [e]), tr) =
             Inr (s1, collected @ map block_of (snd e), map fst (rest @ scheduled (snd e)),
                  tr @ [(children_list (fst e), Inr response)])"
      by blast
    note step = iterate_Inr [of "retrieve_body notion" "(s, collected, map fst (rest @ [e]), tr)", OF body]
    from "1.IH" [OF False next_ok, of s1 "collected @ map block_of (snd e)"
        "tr @ [(children_list (fst e), Inr response)]"] stack
    obtain tr' s' where
      a: "iterate (retrieve_body notion)
            (s1, collected @ map block_of (snd e), map fst (rest @ scheduled (snd e)),
             tr @ [(children_list (fst e), Inr response)]) =
          Some (JArr ((collected @ map block_of (snd e)) @ emitted (rest @ scheduled (snd e))),
                (tr @ [(children_list (fst e), Inr response)]) @ tr', s')" and
      b: "map fst tr' = map (\<lambda>e. children_list (fst e)) (pops (rest @ scheduled (snd e)))" and
      c: "concat (map (\<lambda>x. first_page (snd x)) tr') = emitted (rest @ scheduled (snd e))"
      by auto
    show ?thesis
    proof (intro exI conjI)
      show "iterate (retrieve_body notion) (s, collected, map fst stack, tr) =
              Some (JArr (collected @ emitted stack),
                    tr @ ((children_list (fst e), Inr response) # tr'), s')"
        using step a stack by (simp add: emitted_snoc)
      show "map fst ((children_list (fst e), Inr response) # tr') =
              map (\<lambda>e. children_list (fst e)) (pops stack)"
        using b stack by (simp add: pops_snoc)
      show "concat (map (\<lambda>x. first_page (snd x)) ((children_list (fst e), Inr response) # tr')) =
              emitted stack"
        using c page stack by (simp add: emitted_snoc)
    qed
  qed
qed

lemma tree_blocks_unfold: "tree_blocks t = block_of t # blocks_below (kids t)"
  by (cases t) (simp add: blocks_below_def)

lemma scheduled_ids_unfold:
  "scheduled_ids t =
     (if flagged (block_of t) then [the_id (block_of t)] else []) @ concat (map scheduled_ids (kids t))"
  by (cases t) simp

lemma edges_unfold:
  "edges t = map (\<lambda>k. (block_of t, block_of k)) (kids t) @ forest_edges (kids t)"
  by (cases t) (simp add: forest_edges_def)

lemma forest_blocks_split:
  assumes "\<forall>t \<in> set ts. serves answer t"
  shows "mset (blocks_below ts) =
           mset (map block_of ts) + mset (concat (map (\<lambda>e. blocks_below (snd e)) (scheduled ts)))"
  using assms
proof (induction ts)
  case Nil
  show ?case by (simp add: blocks_below_def scheduled_def)
next
  case (Cons t ts)
  from Cons.prems have "serves answer t" by simp
  from serves_block [OF this] have leaf: "\<not> flagged (block_of t) \<Longrightarrow> kids t = []" by blast
  from Cons.prems have "\<forall>t \<in> set ts. serves answer t" by simp
  from Cons.IH [OF this] have IH:
    "mset (blocks_below ts) =
       mset (map block_of ts) + mset (concat (map (\<lambda>e. blocks_below (snd e)) (scheduled ts)))" .
  have split: "blocks_below (t # ts) = block_of t # blocks_below (kids t) @ blocks_below ts"
    by (simp add: blocks_below_def tree_blocks_unfold)
  show ?case
  proof (cases "flagged (block_of t)")
    case True
    then have "scheduled (t # ts) = (the_id (block_of t), kids t) # scheduled ts"
      by (simp add: scheduled_def)
    with IH split show ?thesis by simp
  next
    case False
    then have "scheduled (t # ts) = scheduled ts" by (simp add: scheduled_def)
    moreover from leaf [OF False] have "blocks_below (kids t) = []" by (simp add: blocks_below_def)
    ultimately show ?thesis using IH split by simp
  qed
qed

lemma emitted_mset:
  "\<forall>e \<in> set stack. entry_ok answer e \<Longrightarrow>
   mset (emitted stack) = mset (concat (map (\<lambda>e. blocks_below (snd e)) stack))"
proof (induction stack rule: pops.induct)
  case (1 stack)
  show ?case
  proof (cases "stack = []")
    case True
    then show ?thesis by (simp add: emitted_Nil)
  next
    case False
    then obtain rest e where stack: "stack = rest @ [e]"
      by (cases stack rule: rev_cases) auto
    with "1.prems" have e: "entry_ok answer e" and rest: "\<forall>x \<in> set rest. entry_ok answer x"
      by simp_all
    from e have forest: "\<forall>t \<in> set (snd e). serves answer t"
      by (simp add: entry_ok_def serves_root_def)
    from scheduled_ok [OF forest] rest
    have "\<forall>x \<in> set (butlast stack @ scheduled (snd (last stack))). entry_ok answer x"
      using stack by auto
    from "1.IH" [OF False this] stack
    have "mset (emitted (rest @ scheduled (snd e))) =
            mset (concat (map (\<lambda>e. blocks_below (snd e)) (rest @ scheduled (snd e))))"
      by simp
    with forest_blocks_split [OF forest] stack show ?thesis
      by (simp add: emitted_snoc)
  qed
qed

lemma forest_ids_split:
  assumes "\<forall>t \<in> set ts. serves answer t"
  shows "mset (concat (map scheduled_ids ts)) =
           mset (map fst (scheduled ts)) +
           mset (concat (map (\<lambda>e. concat (map scheduled_ids (snd e))) (scheduled ts)))"
  using assms
proof (induction ts)
  case Nil
  show ?case by (simp add: scheduled_def)
next
  case (Cons t ts)
  from Cons.prems have "serves answer t" by simp
  from serves_block [OF this] have leaf: "\<not> flagged (block_of t) \<Longrightarrow> kids t = []" by blast
  from Cons.prems have "\<forall>t \<in> set ts. serves answer t" by simp
  note IH = Cons.IH [OF this]
  show ?case
  proof (cases "flagged (block_of t)")
    case True
    then have "scheduled (t # ts) = (the_id (block_of t), kids t) # scheduled ts"
      by (simp add: scheduled_def)
    with IH True show ?thesis by (simp add: scheduled_ids_unfold [of t])
  next
    case False
    then have "scheduled (t # ts) = scheduled ts" by (simp add: scheduled_def)
    with IH False leaf [OF False] show ?thesis by (simp add: scheduled_ids_unfold [of t])
  qed
qed

lemma pops_ids_mset:
  "\<forall>e \<in> set stack. entry_ok answer e \<Longrightarrow>
   mset (map fst (pops stack)) =
     mset (map fst stack) + mset (concat (map (\<lambda>e. concat (map scheduled_ids (snd e))) stack))"
proof (induction stack rule: pops.induct)
  case (1 stack)
  show ?case
  proof (cases "stack = []")
    case True
    then show ?thesis by (simp add: pops_Nil)
  next
    case False
    then obtain rest e where stack: "stack = rest @ [e]"
      by (cases stack rule: rev_cases) auto
    with "1.prems" have e: "entry_ok answer e" and rest: "\<forall>x \<in> set rest. entry_ok answer x"
      by simp_all
    from e have forest: "\<forall>t \<in> set (snd e). serves answer t"
      by (simp add: entry_ok_def serves_root_def)
    from scheduled_ok [OF forest] rest
    have "\<forall>x \<in> set (butlast stack @ scheduled (snd (last stack))). entry_ok answer x"
      using stack by auto
    from "1.IH" [OF False this] stack
    have "mset (map fst (pops (rest @ scheduled (snd e)))) =
            mset (map fst (rest @ scheduled (snd e))) +
            mset (concat (map (\<lambda>e. concat (map scheduled_ids (snd e))) (rest @ scheduled (snd e))))"
      by simp
    with forest_ids_split [OF forest] stack show ?thesis
      by (simp add: pops_snoc)
  qed
qed

lemma precedes_in_tail: "precedes p c xs \<Longrightarrow> c \<in> set xs"
proof -
  assume "precedes p c xs"
  then have "c \<in> set (tl (dropWhile (\<lambda>x. x \<noteq> p) xs))" by (simp add: precedes_def)
  then have "c \<in> set (dropWhile (\<lambda>x. x \<noteq> p) xs)"
    by (cases "dropWhile (\<lambda>x. x \<noteq> p) xs") auto
  then show "c \<in> set xs" by (rule set_dropWhileD)
qed

lemma precedes_across:
  assumes "p \<in> set xs" and "c \<in> set ys"
  shows "precedes p c (xs @ ys)"
proof -
  from assms(1) have "dropWhile (\<lambda>x. x \<noteq> p) (xs @ ys) = dropWhile (\<lambda>x. x \<noteq> p) xs @ ys"
    by (intro dropWhile_append1) auto
  moreover from assms(1) have "dropWhile (\<lambda>x. x \<noteq> p) xs \<noteq> []"
    by (simp add: dropWhile_eq_Nil_conv)
  ultimately show ?thesis
    using assms(2) by (simp add: precedes_def)
qed

lemma precedes_later:
  assumes "precedes p c ys"
  shows "precedes p c (xs @ ys)"
proof (cases "p \<in> set xs")
  case True
  from precedes_across [OF True precedes_in_tail [OF assms]] show ?thesis .
next
  case False
  then have "dropWhile (\<lambda>x. x \<noteq> p) (xs @ ys) = dropWhile (\<lambda>x. x \<noteq> p) ys"
    by (intro dropWhile_append2) auto
  with assms show ?thesis by (simp add: precedes_def)
qed

lemma emitted_order:
  "\<forall>e \<in> set stack. entry_ok answer e \<Longrightarrow>
   \<forall>e \<in> set stack. \<forall>pc \<in> set (forest_edges (snd e)). precedes (fst pc) (snd pc) (emitted stack)"
proof (induction stack rule: pops.induct)
  case (1 stack)
  show ?case
  proof (cases "stack = []")
    case True
    then show ?thesis by simp
  next
    case False
    then obtain rest e where stack: "stack = rest @ [e]"
      by (cases stack rule: rev_cases) auto
    let ?next = "rest @ scheduled (snd e)"
    from stack "1.prems" have e: "entry_ok answer e" and rest: "\<forall>x \<in> set rest. entry_ok answer x"
      by simp_all
    from e have forest: "\<forall>t \<in> set (snd e). serves answer t"
      by (simp add: entry_ok_def serves_root_def)
    from scheduled_ok [OF forest] rest have next_ok: "\<forall>x \<in> set ?next. entry_ok answer x"
      by auto
    with "1.IH" [OF False] stack
    have IH: "\<forall>x \<in> set ?next. \<forall>pc \<in> set (forest_edges (snd x)).
                precedes (fst pc) (snd pc) (emitted ?next)"
      by simp
    have em: "emitted stack = map block_of (snd e) @ emitted ?next"
      using stack by (simp add: emitted_snoc)
    show ?thesis
    proof (intro ballI)
      fix x pc
      assume x: "x \<in> set stack" and pc: "pc \<in> set (forest_edges (snd x))"
      from x stack consider "x \<in> set rest" | "x = e" by auto
      then show "precedes (fst pc) (snd pc) (emitted stack)"
      proof cases
        case 1
        with IH pc have "precedes (fst pc) (snd pc) (emitted ?next)" by auto
        then show ?thesis unfolding em by (rule precedes_later)
      next
        case 2
        with pc obtain t where t: "t \<in> set (snd e)" and pct: "pc \<in> set (edges t)"
          by (auto simp: forest_edges_def)
        from forest t have st: "serves answer t" by simp
        from pct have "kids t \<noteq> []" by (auto simp: edges_unfold [of t] forest_edges_def)
        with serves_block [OF st] have fl: "flagged (block_of t)" by blast
        with t have sched: "(the_id (block_of t), kids t) \<in> set ?next"
          by (auto simp: scheduled_def)
        from pct consider k where "k \<in> set (kids t)" "pc = (block_of t, block_of k)"
          | "pc \<in> set (forest_edges (kids t))"
          by (auto simp: edges_unfold [of t])
        then show ?thesis
        proof cases
          case 1
          from t have p: "fst pc \<in> set (map block_of (snd e))" using 1 by simp
          have "block_of k \<in> set (tree_blocks k)"
            by (subst tree_blocks_unfold) simp
          with 1 have "block_of k \<in> set (blocks_below (kids t))"
            by (auto simp: blocks_below_def)
          with sched have "block_of k \<in> set (concat (map (\<lambda>e. blocks_below (snd e)) ?next))"
            by force
          also from emitted_mset [OF next_ok]
          have "set (concat (map (\<lambda>e. blocks_below (snd e)) ?next)) = set (emitted ?next)"
            by (metis set_mset_mset)
          finally have "snd pc \<in> set (emitted ?next)" using 1 by simp
          with p show ?thesis unfolding em by (rule precedes_across)
        next
          case 2
          with IH sched have "precedes (fst pc) (snd pc) (emitted ?next)" by force
          then show ?thesis unfolding em by (rule precedes_later)
        qed
      qed
    qed
  qed
qed

lemma retrieve_all_blocks_tree:
  assumes stable: "\<And>s c. fst (notion s c) = answer c"
      and tree: "serves_root answer block_id forest"
  shows "\<exists>tr s'. retrieve_all_blocks notion s block_id =
             Some (JArr (emitted [(block_id, forest)]), tr, s') \<and>
           map fst tr = map (\<lambda>e. children_list (fst e)) (pops [(block_id, forest)]) \<and>
           concat (map (\<lambda>x. first_page (snd x)) tr) = emitted [(block_id, forest)]"
proof -
  from tree have "\<forall>e \<in> set [(block_id, forest)]. entry_ok answer e"
    by (simp add: entry_ok_def)
  from retrieve_loop_tree
    [where notion = notion and answer = answer and stack = "[(block_id, forest)]" and s = s and
       collected = "[]" and tr = "[]", OF stable this]
  show ?thesis by (simp add: retrieve_all_blocks_def)
qed

lemma retrieve_body_list_iff:
  "retrieve_body notion (s0, collected, todo, tr0) = Inl (JArr out0, tr1, s1) \<longleftrightarrow>
   todo = [] \<and> out0 = collected \<and> tr1 = tr0 \<and> s1 = s0"
  by (auto simp: retrieve_body_def Let_def split: prod.splits sum.splits)

text \<open>
  C1, as the code has it. When the children of every node are the blocks on the first page
  of that node's children listing (so whenever no node's children run over to a later
  page), the flattener returns: its output holds every block of that tree below the root
  exactly once (so no block twice when the blocks differ), every child block comes after
  its parent, the children listing is called once for the root and once for every block
  whose children were scheduled, and the loop leaves with the collected list exactly when
  the work list is empty.
\<close>

theorem retrieve_all_blocks_visits_tree_once:
  assumes stable: "\<And>s c. fst (notion s c) = answer c"
      and tree: "serves_root answer block_id forest"
  shows "\<exists>out tr s'.
           retrieve_all_blocks notion s block_id = Some (JArr out, tr, s') \<and>
           mset out = mset (blocks_below forest) \<and>
           (distinct (blocks_below forest) \<longrightarrow> distinct out) \<and>
           (\<forall>pc \<in> set (forest_edges forest). precedes (fst pc) (snd pc) out) \<and>
           mset (map fst tr) =
             mset (map children_list (block_id # concat (map scheduled_ids forest))) \<and>
           (\<forall>s0 collected todo tr0 out0 tr1 s1.
              retrieve_body notion (s0, collected, todo, tr0) = Inl (JArr out0, tr1, s1) \<longleftrightarrow>
              todo = [] \<and> out0 = collected \<and> tr1 = tr0 \<and> s1 = s0)"
proof -
  let ?stack = "[(block_id, forest)]"
  from tree have ok: "\<forall>e \<in> set ?stack. entry_ok answer e"
    by (simp add: entry_ok_def)
  from retrieve_all_blocks_tree
    [where notion = notion and answer = answer and s = s, OF stable tree]
  obtain tr s' where
    run: "retrieve_all_blocks notion s block_id = Some (JArr (emitted ?stack), tr, s')" and
    calls: "map fst tr = map (\<lambda>e. children_list (fst e)) (pops ?stack)"
    by blast
  from emitted_mset [OF ok] have m: "mset (emitted ?stack) = mset (blocks_below forest)"
    by simp
  have d: "distinct (blocks_below forest) \<longrightarrow> distinct (emitted ?stack)"
    using mset_eq_imp_distinct_iff [OF m] by simp
  from emitted_order [OF ok]
  have o: "\<forall>pc \<in> set (forest_edges forest). precedes (fst pc) (snd pc) (emitted ?stack)"
    by simp
  have "map fst tr = map children_list (map fst (pops ?stack))"
    using calls by simp
  then have "mset (map fst tr) = image_mset children_list (mset (map fst (pops ?stack)))"
    by (simp only: mset_map)
  also from pops_ids_mset [OF ok]
  have "mset (map fst (pops ?stack)) = mset (block_id # concat (map scheduled_ids forest))"
    by simp
  finally have c: "mset (map fst tr) =
      mset (map children_list (block_id # concat (map scheduled_ids forest)))"
    by (simp only: mset_map)
  have l: "\<forall>s0 collected todo tr0 out0 tr1 s1.
      retrieve_body notion (s0, collected, todo, tr0) = Inl (JArr out0, tr1, s1) \<longleftrightarrow>
      todo = [] \<and> out0 = collected \<and> tr1 = tr0 \<and> s1 = s0"
    by (intro allI retrieve_body_list_iff)
  from run m d o c l show ?thesis by (intro exI conjI)
qed

lemma example_serves: "serves_root example_answer (JStr ''page'') example_forest"
  by (simp add: serves_root_def example_forest_def example_answer_def lists_def children_list_def
      parent_block_def leaf_block_def dict_get_def)

lemma fixed_workspace_stable: "fst (fixed_workspace answer s c) = answer c"
  by (simp add: fixed_workspace_def)

theorem retrieve_all_blocks_visits_tree_once_witness:
  "(\<forall>s c. fst (fixed_workspace example_answer s c) = example_answer c) \<and>
   serves_root example_answer (JStr ''page'') example_forest \<and>
   (\<exists>out tr s'.
      retrieve_all_blocks (fixed_workspace example_answer) () (JStr ''page'') = Some (JArr out, tr, s') \<and>
      mset out = mset (blocks_below example_forest) \<and>
      (distinct (blocks_below example_forest) \<longrightarrow> distinct out) \<and>
      (\<forall>pc \<in> set (forest_edges example_forest). precedes (fst pc) (snd pc) out) \<and>
      mset (map fst tr) =
        mset (map children_list (JStr ''page'' # concat (map scheduled_ids example_forest))) \<and>
      (\<forall>s0 collected todo tr0 out0 tr1 s1.
         retrieve_body (fixed_workspace example_answer) (s0, collected, todo, tr0) =
           Inl (JArr out0, tr1, s1) \<longleftrightarrow>
         todo = [] \<and> out0 = collected \<and> tr1 = tr0 \<and> s1 = s0))"
proof -
  have 1: "fst (fixed_workspace example_answer s c) = example_answer c" for s c
    by (rule fixed_workspace_stable)
  have 2: "serves_root example_answer (JStr ''page'') example_forest"
    by (rule example_serves)
  from retrieve_all_blocks_visits_tree_once
    [where notion = "fixed_workspace example_answer" and answer = example_answer and s = "()",
     OF 1 2] 1 2
  show ?thesis by (intro conjI allI)
qed

lemma two_page_run:
  "retrieve_all_blocks (fixed_workspace two_page_answer) () (JStr ''page'') =
     Some (JArr [leaf_block ''b1''], two_page_trace, ())"
proof -
  have first: "retrieve_body (fixed_workspace two_page_answer) ((), [], [JStr ''page''], []) =
      Inr ((), [leaf_block ''b1''], [], two_page_trace)"
    by (simp add: retrieve_body_def fixed_workspace_def two_page_answer_def children_list_def
        expand_response_def leaf_block_def dict_get_def two_page_trace_def)
  have second: "retrieve_body (fixed_workspace two_page_answer)
      ((), [leaf_block ''b1''], [], two_page_trace) =
      Inl (JArr [leaf_block ''b1''], two_page_trace, ())"
    by (simp add: retrieve_body_def)
  from iterate_Inr [of "retrieve_body (fixed_workspace two_page_answer)"
        "((), [], [JStr ''page''], [])", OF first]
    iterate_Inl [of "retrieve_body (fixed_workspace two_page_answer)"
        "((), [leaf_block ''b1''], [], two_page_trace)", OF second]
  show ?thesis by (simp add: retrieve_all_blocks_def)
qed

text \<open>
  The claim as stated fails on a tree with a node whose children take two listing pages.
  The page has the children \<open>b1\<close> and \<open>b2\<close>: its listing without a cursor gives \<open>b1\<close>, reports
  \<open>has_more\<close> and hands out the cursor \<open>c2\<close>, and the listing with that cursor gives \<open>b2\<close>.
  The flattener returns the list with \<open>b1\<close> alone: the reachable block \<open>b2\<close> is not visited.
\<close>

theorem retrieve_all_blocks_misses_later_page:
  "two_page_answer (children_list (JStr ''page'')) =
     Inr (JObj [(''results'', JArr [leaf_block ''b1'']), (''has_more'', JBool True),
                (''next_cursor'', JStr ''c2'')]) \<and>
   two_page_answer (Call ''blocks.children.list''
       [(''block_id'', JStr ''page''), (''start_cursor'', JStr ''c2'')]) =
     Inr (JObj [(''results'', JArr [leaf_block ''b2'']), (''has_more'', JBool False),
                (''next_cursor'', JNull)]) \<and>
   blocks_below two_page_forest = [leaf_block ''b1'', leaf_block ''b2''] \<and>
   retrieve_all_blocks (fixed_workspace two_page_answer) () (JStr ''page'') =
     Some (JArr [leaf_block ''b1''], two_page_trace, ()) \<and>
   leaf_block ''b2'' \<notin> set [leaf_block ''b1''] \<and>
   mset [leaf_block ''b1''] \<noteq> mset (blocks_below two_page_forest)"
proof -
  have differ: "leaf_block ''b2'' \<noteq> leaf_block ''b1''"
    by (simp add: leaf_block_def)
  have below: "blocks_below two_page_forest = [leaf_block ''b1'', leaf_block ''b2'']"
    by (simp add: blocks_below_def two_page_forest_def)
  have "size (mset [leaf_block ''b1'']) \<noteq> size (mset (blocks_below two_page_forest))"
    by (simp add: below)
  then have fewer: "mset [leaf_block ''b1''] \<noteq> mset (blocks_below two_page_forest)"
    by metis
  have listed: "two_page_answer (children_list (JStr ''page'')) =
     Inr (JObj [(''results'', JArr [leaf_block ''b1'']), (''has_more'', JBool True),
                (''next_cursor'', JStr ''c2'')])"
    by (simp add: two_page_answer_def children_list_def)
  have later: "two_page_answer (Call ''blocks.children.list''
       [(''block_id'', JStr ''page''), (''start_cursor'', JStr ''c2'')]) =
     Inr (JObj [(''results'', JArr [leaf_block ''b2'']), (''has_more'', JBool False),
                (''next_cursor'', JNull)])"
    by (simp add: two_page_answer_def)
  from listed later below two_page_run differ fewer show ?thesis
    by simp
qed

text \<open>
  C10. The flattener's output holds the blocks strictly below the root and only them: when
  no block of the tree carries the root's identifier, no block of the output does. For the
  page with two children, one of which has two children, the output has four blocks.
\<close>

theorem retrieve_all_blocks_omits_root:
  assumes stable: "\<And>s c. fst (notion s c) = answer c"
      and tree: "serves_root answer block_id forest"
      and fresh: "block_id \<notin> set (map the_id (blocks_below forest))"
  shows "\<exists>out tr s'.
           retrieve_all_blocks notion s block_id = Some (JArr out, tr, s') \<and>
           set out = set (blocks_below forest) \<and>
           length out = length (blocks_below forest) \<and>
           (\<forall>b \<in> set out. the_id b \<noteq> block_id)"
proof -
  let ?stack = "[(block_id, forest)]"
  from tree have ok: "\<forall>e \<in> set ?stack. entry_ok answer e"
    by (simp add: entry_ok_def)
  from retrieve_all_blocks_tree
    [where notion = notion and answer = answer and s = s, OF stable tree]
  obtain tr s' where
    run: "retrieve_all_blocks notion s block_id = Some (JArr (emitted ?stack), tr, s')"
    by blast
  from emitted_mset [OF ok] have m: "mset (emitted ?stack) = mset (blocks_below forest)"
    by simp
  from m have s: "set (emitted ?stack) = set (blocks_below forest)"
    by (rule mset_eq_setD)
  from m have l: "length (emitted ?stack) = length (blocks_below forest)"
    by (rule mset_eq_length)
  from fresh s have f: "\<forall>b \<in> set (emitted ?stack). the_id b \<noteq> block_id"
    by auto
  from run s l f show ?thesis by (intro exI conjI)
qed

theorem retrieve_all_blocks_omits_root_witness:
  "(\<forall>s c. fst (fixed_workspace example_answer s c) = example_answer c) \<and>
   serves_root example_answer (JStr ''page'') example_forest \<and>
   JStr ''page'' \<notin> set (map the_id (blocks_below example_forest)) \<and>
   (\<exists>out tr s'.
      retrieve_all_blocks (fixed_workspace example_answer) () (JStr ''page'') = Some (JArr out, tr, s') \<and>
      set out = set (blocks_below example_forest) \<and>
      length out = 4 \<and>
      (\<forall>b \<in> set out. the_id b \<noteq> JStr ''page''))"
proof -
  have 1: "fst (fixed_workspace example_answer s c) = example_answer c" for s c
    by (rule fixed_workspace_stable)
  have 2: "serves_root example_answer (JStr ''page'') example_forest"
    by (rule example_serves)
  have 3: "JStr ''page'' \<notin> set (map the_id (blocks_below example_forest))"
    by (simp add: blocks_below_def example_forest_def parent_block_def leaf_block_def dict_get_def)
  have 4: "length (blocks_below example_forest) = 4"
    by (simp add: blocks_below_def example_forest_def)
  from retrieve_all_blocks_omits_root
    [where notion = "fixed_workspace example_answer" and answer = example_answer and s = "()",
     OF 1 2 3, unfolded 4] 1 2 3
  show ?thesis by (intro conjI allI)
qed

lemma iterate_invariant:
  assumes run: "iterate body st = Some r"
      and init: "I st"
      and pres: "\<And>st st1. I st \<Longrightarrow> body st = Inr st1 \<Longrightarrow> I st1"
      and fin: "\<And>st r. I st \<Longrightarrow> body st = Inl r \<Longrightarrow> Q r"
  shows "Q r"
proof -
  have "(\<forall>st st1. I st \<longrightarrow> body st = Inr st1 \<longrightarrow> I st1) \<longrightarrow>
        (\<forall>st r. I st \<longrightarrow> body st = Inl r \<longrightarrow> Q r) \<longrightarrow> I st \<longrightarrow> Q r"
  proof (rule iterate.raw_induct
      [where P = "\<lambda>b s y. (\<forall>st st1. I st \<longrightarrow> b st = Inr st1 \<longrightarrow> I st1) \<longrightarrow>
                     (\<forall>st r. I st \<longrightarrow> b st = Inl r \<longrightarrow> Q r) \<longrightarrow> I s \<longrightarrow> Q y", OF _ run])
    fix it b s y
    assume IH: "\<And>b s y. it b s = Some y \<Longrightarrow>
                 (\<forall>st st1. I st \<longrightarrow> b st = Inr st1 \<longrightarrow> I st1) \<longrightarrow>
                 (\<forall>st r. I st \<longrightarrow> b st = Inl r \<longrightarrow> Q r) \<longrightarrow> I s \<longrightarrow> Q y"
      and unfolded: "(case b s of Inl r \<Rightarrow> Some r | Inr st1 \<Rightarrow> it b st1) = Some y"
    show "(\<forall>st st1. I st \<longrightarrow> b st = Inr st1 \<longrightarrow> I st1) \<longrightarrow>
          (\<forall>st r. I st \<longrightarrow> b st = Inl r \<longrightarrow> Q r) \<longrightarrow> I s \<longrightarrow> Q y"
    proof (intro impI)
      assume p: "\<forall>st st1. I st \<longrightarrow> b st = Inr st1 \<longrightarrow> I st1"
        and f: "\<forall>st r. I st \<longrightarrow> b st = Inl r \<longrightarrow> Q r" and i: "I s"
      show "Q y"
      proof (cases "b s")
        case (Inl r)
        with unfolded have "r = y" by simp
        with f i Inl show ?thesis by blast
      next
        case (Inr s1)
        with unfolded have "it b s1 = Some y" by simp
        moreover from p i Inr have "I s1" by blast
        ultimately show ?thesis using IH p f by blast
      qed
    qed
  qed
  with init pres fin show ?thesis by blast
qed

lemma scan_children_collects:
  "scan_children children collected todo = Inr (collected1, todo1) \<Longrightarrow>
   collected1 = collected @ children"
proof (induction children arbitrary: collected todo)
  case Nil
  then show ?case by simp
next
  case (Cons block rest)
  from Cons.prems obtain c t where "scan_children rest (collected @ [block]) t = Inr (collected1, todo1)"
    by (cases block) (auto simp: and_then_eq_Inr split: if_splits option.splits)
  from Cons.IH [OF this] show ?case by simp
qed

lemma expand_response_collects:
  assumes "expand_response response collected todo = Inr (collected1, todo1)"
  shows "collected1 = collected @ first_page (Inr response)"
proof -
  from assms obtain results children where
    r: "py_get response ''results'' (JArr []) = Inr results" and
    c: "py_iter results = Inr children" and
    s: "scan_children children collected todo = Inr (collected1, todo1)"
    by (auto simp: expand_response_def and_then_eq_Inr)
  from r obtain d where d: "response = JObj d" "results = dict_get d ''results'' (JArr [])"
    by (cases response) auto
  with c have "first_page (Inr response) = children" by simp
  with scan_children_collects [OF s] show ?thesis by simp
qed

lemma retrieve_body_nonempty:
  assumes "todo \<noteq> []" and "notion s (children_list (last todo)) = (r, s1)"
  shows "retrieve_body notion (s, collected, todo, tr) =
           (case and_then r (\<lambda>response. expand_response response collected (butlast todo)) of
              Inl e \<Rightarrow> Inl (JStr (py_str e), tr @ [(children_list (last todo), r)], s1)
            | Inr (collected1, todo1) \<Rightarrow>
                Inr (s1, collected1, todo1, tr @ [(children_list (last todo), r)]))"
  using assms by (simp add: retrieve_body_def Let_def)

lemma retrieve_body_one_call:
  assumes "todo \<noteq> []"
  shows "\<exists>r s1. notion s (Call ''blocks.children.list'' [(''block_id'', last todo)]) = (r, s1) \<and>
           trace_after (retrieve_body notion (s, collected, todo, tr)) =
             tr @ [(Call ''blocks.children.list'' [(''block_id'', last todo)], r)]"
proof -
  obtain r s1 where call: "notion s (children_list (last todo)) = (r, s1)"
    by (cases "notion s (children_list (last todo))")
  from retrieve_body_nonempty
      [where notion = notion and s = s and collected = collected and tr = tr, OF assms call] call show ?thesis
    by (auto simp: children_list_def split: sum.splits)
qed

lemma retrieve_run_first_pages:
  assumes "retrieve_all_blocks notion s block_id = Some (result, tr, s')"
  shows "(\<forall>x \<in> set tr. first_page_call (fst x)) \<and>
         (\<forall>out. result = JArr out \<longrightarrow> out = concat (map (\<lambda>x. first_page (snd x)) tr))"
proof -
  let ?I = "\<lambda>st. case st of (s, collected, todo, tr) \<Rightarrow>
              (\<forall>x \<in> set tr. first_page_call (fst x)) \<and>
              collected = concat (map (\<lambda>x. first_page (snd x)) tr)"
  let ?Q = "\<lambda>r. case r of (result, tr, s') \<Rightarrow>
              (\<forall>x \<in> set tr. first_page_call (fst x)) \<and>
              (\<forall>out. result = JArr out \<longrightarrow> out = concat (map (\<lambda>x. first_page (snd x)) tr))"
  have "?Q (result, tr, s')"
  proof (rule iterate_invariant [where I = ?I and Q = ?Q, OF assms [unfolded retrieve_all_blocks_def]])
    show "?I (s, [], [block_id], [])" by simp
  next
    fix st st1
    assume i: "?I st" and b: "retrieve_body notion st = Inr st1"
    obtain s0 collected todo tr0 where st: "st = (s0, collected, todo, tr0)" by (cases st)
    obtain s1 collected1 todo1 tr1 where st1: "st1 = (s1, collected1, todo1, tr1)" by (cases st1)
    from b st st1 have ne: "todo \<noteq> []" by (auto simp: retrieve_body_def)
    obtain r s2 where call: "notion s0 (children_list (last todo)) = (r, s2)"
      by (cases "notion s0 (children_list (last todo))")
    from b st st1 retrieve_body_nonempty
      [where notion = notion and s = s0 and collected = collected and tr = tr0, OF ne call] obtain response where
      r: "r = Inr response" and
      e: "expand_response response collected (butlast todo) = Inr (collected1, todo1)" and
      t: "tr1 = tr0 @ [(children_list (last todo), r)]"
      by (cases r) (auto split: sum.splits)
    from expand_response_collects [OF e] i st r t show "?I st1"
      unfolding st1 by (simp add: first_page_call_def children_list_def)
  next
    fix st r
    assume i: "?I st" and b: "retrieve_body notion st = Inl r"
    obtain s0 collected todo tr0 where st: "st = (s0, collected, todo, tr0)" by (cases st)
    obtain res tr1 s1 where r: "r = (res, tr1, s1)" by (cases r)
    show "?Q r"
    proof (cases "todo = []")
      case True
      with b st r i show ?thesis by (auto simp: retrieve_body_def)
    next
      case False
      obtain r0 s2 where call: "notion s0 (children_list (last todo)) = (r0, s2)"
        by (cases "notion s0 (children_list (last todo))")
      with b st r retrieve_body_nonempty
        [where notion = notion and s = s0 and collected = collected and tr = tr0, OF False call]
      obtain e where "res = JStr e" "tr1 = tr0 @ [(children_list (last todo), r0)]"
        by (auto split: sum.splits)
      with i st r show ?thesis
        by (simp add: first_page_call_def children_list_def)
    qed
  qed
  then show ?thesis by simp
qed

lemma after_iterations_iterate:
  "after_iterations n body st = Some st1 \<Longrightarrow> iterate body st = iterate body st1"
proof (induction n arbitrary: st)
  case 0
  then show ?case by simp
next
  case (Suc n)
  from Suc.prems obtain st' where b: "body st = Inr st'" and a: "after_iterations n body st' = Some st1"
    by (auto split: sum.splits)
  from iterate_Inr [of body st, OF b] Suc.IH [OF a] show ?case by simp
qed

text \<open>
  C6. When the traversal comes to a children listing that fails, \<^verbatim>\<open>retrieve_all_blocks\<close> stops
  there and returns \<^verbatim>\<open>str(e)\<close>, a plain string, in place of the list: the blocks collected so
  far are dropped, nothing is raised, and the result is a value of the same kind as a
  successful one.
\<close>

theorem failed_fetch_returned_as_string:
  assumes reach: "after_iterations n (retrieve_body notion) (s, [], [block_id], []) =
                    Some (s1, collected, todo, tr)"
      and pending: "todo \<noteq> []"
      and fails: "notion s1 (children_list (last todo)) = (Inl e, s2)"
  shows "retrieve_all_blocks notion s block_id =
           Some (JStr (py_str e), tr @ [(children_list (last todo), Inl e)], s2)"
proof -
  from retrieve_body_nonempty
    [where notion = notion and s = s1 and collected = collected and tr = tr, OF pending fails]
  have "retrieve_body notion (s1, collected, todo, tr) =
          Inl (JStr (py_str e), tr @ [(children_list (last todo), Inl e)], s2)"
    by simp
  from iterate_Inl [of "retrieve_body notion" "(s1, collected, todo, tr)", OF this]
    after_iterations_iterate [OF reach]
  show ?thesis by (simp add: retrieve_all_blocks_def)
qed

theorem failed_fetch_returned_as_string_witness:
  "after_iterations 1 (retrieve_body (fixed_workspace failing_answer)) ((), [], [JStr ''page''], []) =
     Some ((), [parent_block ''a'', leaf_block ''b''], [JStr ''a''],
           [(children_list (JStr ''page''),
             Inr (JObj [(''results'', JArr [parent_block ''a'', leaf_block ''b''])]))]) \<and>
   [JStr ''a''] \<noteq> [] \<and>
   fixed_workspace failing_answer () (children_list (last [JStr ''a''])) =
     (Inl (Raised ''Rate limited''), ()) \<and>
   retrieve_all_blocks (fixed_workspace failing_answer) () (JStr ''page'') =
     Some (JStr ''Rate limited'',
           [(children_list (JStr ''page''),
             Inr (JObj [(''results'', JArr [parent_block ''a'', leaf_block ''b''])])),
            (children_list (JStr ''a''), Inl (Raised ''Rate limited''))], ())"
proof -
  have 1: "after_iterations 1 (retrieve_body (fixed_workspace failing_answer))
      ((), [], [JStr ''page''], []) =
     Some ((), [parent_block ''a'', leaf_block ''b''], [JStr ''a''],
           [(children_list (JStr ''page''),
             Inr (JObj [(''results'', JArr [parent_block ''a'', leaf_block ''b''])]))])"
    by (simp add: retrieve_body_def fixed_workspace_def failing_answer_def expand_response_def
        parent_block_def leaf_block_def dict_get_def)
  have 2: "[JStr ''a''] \<noteq> []" by simp
  have 3: "fixed_workspace failing_answer () (children_list (last [JStr ''a''])) =
     (Inl (Raised ''Rate limited''), ())"
    by (simp add: fixed_workspace_def failing_answer_def children_list_def)
  from failed_fetch_returned_as_string [OF 1 2 3] 1 2 3 show ?thesis by simp
qed

text \<open>
  C5. Every iteration that pops an identifier issues exactly one children listing, for that
  identifier and with no cursor argument; every call of a run is such a listing, and the
  blocks of a returned list are exactly the first pages listed, in call order: what a later
  page of some block's children would hold is not in the output.
\<close>

theorem children_fetched_once_without_cursor:
  "(todo \<noteq> [] \<longrightarrow>
      (\<exists>r s1. notion s (Call ''blocks.children.list'' [(''block_id'', last todo)]) = (r, s1) \<and>
         trace_after (retrieve_body notion (s, collected, todo, tr)) =
           tr @ [(Call ''blocks.children.list'' [(''block_id'', last todo)], r)])) \<and>
   (retrieve_all_blocks notion s0 block_id = Some (result, tr', s') \<longrightarrow>
      (\<forall>x \<in> set tr'. first_page_call (fst x)) \<and>
      (\<forall>out. result = JArr out \<longrightarrow> out = concat (map (\<lambda>x. first_page (snd x)) tr')))"
  using retrieve_body_one_call [of todo notion s collected tr]
    retrieve_run_first_pages [of notion s0 block_id result tr' s']
  by blast

theorem children_fetched_once_without_cursor_witness:
  "[JStr ''page''] \<noteq> [] \<and>
   retrieve_all_blocks (fixed_workspace two_page_answer) () (JStr ''page'') =
     Some (JArr [leaf_block ''b1''], two_page_trace, ()) \<and>
   first_page (two_page_answer (Call ''blocks.children.list''
     [(''block_id'', JStr ''page''), (''start_cursor'', JStr ''c2'')])) = [leaf_block ''b2''] \<and>
   (\<exists>r s1. fixed_workspace two_page_answer ()
             (Call ''blocks.children.list'' [(''block_id'', last [JStr ''page''])]) = (r, s1) \<and>
      trace_after (retrieve_body (fixed_workspace two_page_answer) ((), [], [JStr ''page''], [])) =
        [] @ [(Call ''blocks.children.list'' [(''block_id'', last [JStr ''page''])], r)]) \<and>
   list_all first_page_call (map fst two_page_trace) \<and>
   [leaf_block ''b1''] = concat (map (\<lambda>x. first_page (snd x)) two_page_trace)"
proof -
  have 1: "[JStr ''page''] \<noteq> []" by simp
  have b1: "retrieve_body (fixed_workspace two_page_answer) ((), [], [JStr ''page''], []) =
      Inr ((), [leaf_block ''b1''], [], two_page_trace)"
    by (simp add: retrieve_body_def fixed_workspace_def two_page_answer_def children_list_def
        expand_response_def leaf_block_def dict_get_def two_page_trace_def)
  have b2: "retrieve_body (fixed_workspace two_page_answer)
      ((), [leaf_block ''b1''], [], two_page_trace) = Inl (JArr [leaf_block ''b1''], two_page_trace, ())"
    by (simp add: retrieve_body_def)
  have 2: "retrieve_all_blocks (fixed_workspace two_page_answer) () (JStr ''page'') =
     Some (JArr [leaf_block ''b1''], two_page_trace, ())"
    unfolding retrieve_all_blocks_def
    using iterate_Inr [of "retrieve_body (fixed_workspace two_page_answer)"
        "((), [], [JStr ''page''], [])", OF b1]
      iterate_Inl [of "retrieve_body (fixed_workspace two_page_answer)"
        "((), [leaf_block ''b1''], [], two_page_trace)", OF b2]
    by simp
  have 3: "first_page (two_page_answer (Call ''blocks.children.list''
     [(''block_id'', JStr ''page''), (''start_cursor'', JStr ''c2'')])) = [leaf_block ''b2'']"
    by (simp add: two_page_answer_def dict_get_def)
  from children_fetched_once_without_cursor
    [of "[JStr ''page'']" "fixed_workspace two_page_answer" "()" "[]" "[]" "()" "JStr ''page''"
        "JArr [leaf_block ''b1'']" two_page_trace "()"] 1 2 3
  show ?thesis by (simp add: list_all_iff)
qed

end
